theory Spec2Isabelle
  imports Complex_Main "HOL-Library.AList" "HOL-Library.Multiset" "HOL-Library.Log_Nat"
begin

section \<open>Text\<close>

text \<open>
  The index works on Python \<open>str\<close> values. A \<^typ>\<open>char\<close> stands for one code point
  below 256, so a \<^typ>\<open>string\<close> is a Python string over that range, where \<open>str.lower\<close>
  maps one code point to one code point. The three character classes below are the ones
  of the library functions the source calls, written out for these 256 code points.
\<close>

definition code_point :: "char \<Rightarrow> nat" where
  "code_point c = of_char c"

definition word_char :: "char \<Rightarrow> bool" where
  \<comment> \<open>what \<open>\w\<close> matches in a \<open>str\<close> pattern: alphanumerics and the underscore\<close>
  "word_char c =
     (let n = code_point c
      in (48 \<le> n \<and> n \<le> 57) \<or> (65 \<le> n \<and> n \<le> 90) \<or> n = 95 \<or> (97 \<le> n \<and> n \<le> 122)
         \<or> n = 170 \<or> n = 178 \<or> n = 179 \<or> n = 181 \<or> n = 185 \<or> n = 186
         \<or> (188 \<le> n \<and> n \<le> 190) \<or> (192 \<le> n \<and> n \<le> 214)
         \<or> (216 \<le> n \<and> n \<le> 246) \<or> 248 \<le> n)"

definition lower_char :: "char \<Rightarrow> char" where
  "lower_char c =
     (let n = code_point c
      in if (65 \<le> n \<and> n \<le> 90) \<or> (192 \<le> n \<and> n \<le> 214) \<or> (216 \<le> n \<and> n \<le> 222)
         then char_of (n + 32) else c)"

definition lower :: "string \<Rightarrow> string" where
  \<comment> \<open>\<open>text.lower()\<close>\<close>
  "lower s = map lower_char s"

definition space_char :: "char \<Rightarrow> bool" where
  \<comment> \<open>the characters \<open>str.strip()\<close> removes\<close>
  "space_char c =
     (let n = code_point c
      in (9 \<le> n \<and> n \<le> 13) \<or> (28 \<le> n \<and> n \<le> 32) \<or> n = 133 \<or> n = 160)"

definition strip :: "string \<Rightarrow> string" where
  \<comment> \<open>\<open>s.strip()\<close>\<close>
  "strip s = rev (dropWhile space_char (rev (dropWhile space_char s)))"

text \<open>
  \<open>re.findall(r'\w+', s)\<close>: scanning from the left, a word character starts a match,
  the match is greedy, and scanning resumes after it.
\<close>

function findall_words :: "string \<Rightarrow> string list" where
  "findall_words [] = []"
| "findall_words (c # cs) =
     (if word_char c
      then (c # takeWhile word_char cs) # findall_words (dropWhile word_char cs)
      else findall_words cs)"
  by pat_completeness auto
termination
  by (relation "measure length") (auto simp: length_dropWhile_le less_Suc_eq_le)

section \<open>Tokenizer\<close>

type_synonym tf_vector = "(string \<times> int) list"

text \<open>
  A \<open>dict\<close> from terms to counts is an association list in insertion order;
  \<^const>\<open>AList.update\<close> is the assignment \<open>freq[w] = v\<close>: it replaces the value of a key
  that is present and appends a key that is not.
\<close>

definition dict_get :: "('k \<times> 'v) list \<Rightarrow> 'k \<Rightarrow> 'v \<Rightarrow> 'v" where
  \<comment> \<open>\<open>d.get(k, default)\<close>\<close>
  "dict_get d k dflt = (case map_of d k of None \<Rightarrow> dflt | Some v \<Rightarrow> v)"

fun tally :: "string list \<Rightarrow> tf_vector \<Rightarrow> tf_vector" where
  \<comment> \<open>the loop \<open>for w in words\<close> of \<open>_tokenize\<close>, with \<open>freq\<close> as accumulator\<close>
  "tally [] freq = freq"
| "tally (w # ws) freq =
     tally ws (if length w > 2 then AList.update w (dict_get freq w 0 + 1) freq else freq)"

definition tokenize :: "string \<Rightarrow> tf_vector" where
  "tokenize text = tally (findall_words (lower text)) []"

text \<open>
  What the specification says of the tokenizer, as a second definition: the tokens are
  the maximal runs of word characters, that is the non-empty pieces between separators,
  and a term's frequency is the number of tokens longer than two characters equal to it.
\<close>

fun pieces :: "string \<Rightarrow> string list" where
  "pieces [] = [[]]"
| "pieces (c # cs) =
     (if word_char c
      then (case pieces cs of p # ps \<Rightarrow> (c # p) # ps | [] \<Rightarrow> [[c]])
      else [] # pieces cs)"

definition maximal_runs :: "string \<Rightarrow> string list" where
  "maximal_runs s = filter (\<lambda>p. p \<noteq> []) (pieces s)"

definition spec_frequency :: "string \<Rightarrow> string \<Rightarrow> nat" where
  "spec_frequency text w =
     count_list (filter (\<lambda>p. 2 < length p) (maximal_runs (lower text))) w"

section \<open>Floating point\<close>

text \<open>
  A Python \<open>float\<close> is an IEEE 754 binary64 number. A finite one is modelled by the
  rational it denotes, and each operation by the exact result rounded to the nearest
  number with 53 significant bits, ties to the even one, which is what the conversion of
  an \<open>int\<close>, \<open>*\<close>, \<open>/\<close> and \<open>math.sqrt\<close> compute on normal numbers. The exponent
  range of binary64 is not modelled. The operations below are those of Python as long as
  every \<open>int\<close> converted is smaller in size than \<open>2 ^ 1024\<close> and every result is zero or
  at least \<open>2 ^ -1022\<close> and below \<open>2 ^ 1024\<close> in size. Outside that range Python differs:
  the conversion of a larger \<open>int\<close> raises \<open>OverflowError\<close>, a larger product is
  infinite, and a smaller quotient is rounded as a subnormal number. In
  \<open>_cosine_similarity\<close> everything stays in the range when both sums of squared counts
  are below \<open>2 ^ 1000\<close>: the norms are then at most \<open>2 ^ 500\<close>, their product at most
  \<open>2 ^ 1000\<close>, the dot product is no larger than that product, and a quotient that is not
  zero is at least \<open>2 ^ -1000\<close> in size. The properties of the similarity's value are
  stated for that range.
\<close>

definition pow2 :: "int \<Rightarrow> rat" where
  "pow2 e = (if 0 \<le> e then 2 ^ nat e else 1 / 2 ^ nat (- e))"

definition unit_roundoff :: rat where
  \<comment> \<open>half the distance from 1 to the next float\<close>
  "unit_roundoff = 1 / 2 ^ 53"

definition round_half_even :: "rat \<Rightarrow> int" where
  "round_half_even x =
     (let n = \<lfloor>x\<rfloor>; r = x - of_int n
      in if r < 1 / 2 then n else if 1 / 2 < r then n + 1 else if even n then n else n + 1)"

definition exponent :: "rat \<Rightarrow> int" where
  \<comment> \<open>for \<open>0 < x\<close>, the \<open>e\<close> with \<open>2 ^ e \<le> x < 2 ^ (e + 1)\<close>\<close>
  "exponent x =
     (let e = bitlen (fst (quotient_of x)) - bitlen (snd (quotient_of x))
      in if pow2 e \<le> x then e else e - 1)"

definition fl_round_pos :: "rat \<Rightarrow> rat" where
  "fl_round_pos x =
     of_int (round_half_even (x * pow2 (52 - exponent x))) * pow2 (exponent x - 52)"

definition fl_round :: "rat \<Rightarrow> rat" where
  "fl_round x = (if x = 0 then 0 else if x < 0 then - fl_round_pos (- x) else fl_round_pos x)"

definition fl_of_int :: "int \<Rightarrow> rat" where
  \<comment> \<open>the conversion \<open>float(n)\<close> that \<open>math.sqrt\<close> and \<open>/\<close> apply to an \<open>int\<close> operand\<close>
  "fl_of_int n = fl_round (of_int n)"

definition fl_mul :: "rat \<Rightarrow> rat \<Rightarrow> rat" where
  "fl_mul a b = fl_round (a * b)"

definition fl_div :: "rat \<Rightarrow> rat \<Rightarrow> rat" where
  "fl_div a b = fl_round (a / b)"

function isqrt :: "int \<Rightarrow> int" where
  \<comment> \<open>the integer square root, two bits at a time\<close>
  "isqrt n =
     (if n \<le> 0 then 0
      else let r = 2 * isqrt (n div 4) in if (r + 1) * (r + 1) \<le> n then r + 1 else r)"
  by pat_completeness auto
termination
  by (relation "measure nat") auto

declare isqrt.simps [simp del]

definition fl_sqrt :: "rat \<Rightarrow> rat" where
  \<comment> \<open>the correctly rounded square root of a non-negative float\<close>
  "fl_sqrt x =
     (if x \<le> 0 then 0
      else let e = exponent x div 2;
               y = x * pow2 (2 * (52 - e));
               s = isqrt \<lfloor>y\<rfloor>;
               h = (of_int s + 1 / 2) * (of_int s + 1 / 2);
               m = (if y < h then s else if h < y then s + 1 else if even s then s else s + 1)
           in of_int m * pow2 (e - 52))"

definition threshold :: rat where
  \<comment> \<open>the literal \<open>0.05\<close>: the float nearest to one twentieth\<close>
  "threshold = fl_round (5 / 100)"

section \<open>Cosine similarity\<close>

definition cosine_similarity :: "tf_vector \<Rightarrow> tf_vector \<Rightarrow> rat" where
  "cosine_similarity vec1 vec2 =
     (let intersection = remdups (filter (\<lambda>w. w \<in> set (map fst vec2)) (map fst vec1));
          dot_product = (\<Sum>w\<leftarrow>intersection. dict_get vec1 w 0 * dict_get vec2 w 0);
            \<comment> \<open>\<open>vec1[w] * vec2[w]\<close>: a key of the intersection is in both\<close>
          mag1 = fl_sqrt (fl_of_int (\<Sum>v\<leftarrow>map snd vec1. v ^ 2));
          mag2 = fl_sqrt (fl_of_int (\<Sum>v\<leftarrow>map snd vec2. v ^ 2))
      in if mag1 = 0 \<or> mag2 = 0 then 0
         else fl_div (fl_of_int dot_product) (fl_mul mag1 mag2))"

text \<open>
  What the specification says of the similarity, as further definitions: the sum over the
  terms common to both vectors of the products of their counts, and the square of a
  vector's Euclidean norm.
\<close>

definition common_dot :: "tf_vector \<Rightarrow> tf_vector \<Rightarrow> int" where
  "common_dot vec1 vec2 =
     (\<Sum>w\<in>fst ` set vec1 \<inter> fst ` set vec2. dict_get vec1 w 0 * dict_get vec2 w 0)"

definition squared_norm :: "tf_vector \<Rightarrow> int" where
  "squared_norm vec = (\<Sum>v\<leftarrow>map snd vec. v ^ 2)"

section \<open>Documents and the store\<close>

record document =
  doc_id :: string
  session :: string
  role :: string
  content :: string
  vector :: tf_vector

datatype exn = OSError | JSONDecodeError | ValueError

datatype index_state = Absent | Unparsable | Json "document list"

text \<open>
  The index file is modelled by what \<open>json.load\<close> makes of it: it does not exist, it
  does not parse, or it holds the list of documents that \<open>json.dump\<close> wrote. What one
  attempt to write does is the environment's choice: the write goes through, \<open>open\<close>
  fails and leaves the file alone, or the write fails after \<open>open\<close> has truncated the
  file.
\<close>

datatype disk = Writes | OpenFails | WriteFails

record store =
  documents :: "document list"
  index_file :: index_state
  logged :: "exn list"

definition read_json :: "index_state \<Rightarrow> exn + document list" where
  "read_json f = (case f of Json ds \<Rightarrow> Inr ds | _ \<Rightarrow> Inl JSONDecodeError)"

definition load_index :: "store \<Rightarrow> store" where
  "load_index st =
     (if index_file st \<noteq> Absent
      then (case read_json (index_file st) of
              Inr ds \<Rightarrow> st\<lparr>documents := ds\<rparr>
            | Inl e \<Rightarrow> st\<lparr>documents := []\<rparr>)
      else st)"

definition new_store :: "index_state \<Rightarrow> store" where
  \<comment> \<open>\<open>LocalVectorDB(workspace)\<close> over a workspace whose index file is \<open>f\<close>\<close>
  "new_store f = load_index \<lparr>documents = [], index_file = f, logged = []\<rparr>"

definition write_json :: "disk \<Rightarrow> document list \<Rightarrow> index_state \<Rightarrow> (exn + unit) \<times> index_state" where
  "write_json dk ds f =
     (case dk of
        Writes \<Rightarrow> (Inr (), Json ds)
      | OpenFails \<Rightarrow> (Inl OSError, f)
      | WriteFails \<Rightarrow> (Inl OSError, Unparsable))"

definition save_index :: "disk \<Rightarrow> store \<Rightarrow> exn + store" where
  "save_index dk st =
     (case write_json dk (documents st) (index_file st) of
        (Inr u, f) \<Rightarrow> Inr (st\<lparr>index_file := f\<rparr>)
      | (Inl e, f) \<Rightarrow> Inr (st\<lparr>index_file := f, logged := logged st @ [e]\<rparr>))"

section \<open>Adding a message\<close>

text \<open>
  A message is a \<open>dict\<close>: its \<open>content\<close> is missing, is a value that is not a
  \<open>str\<close>, or is a \<open>str\<close>; its \<open>role\<close> is optional. An \<open>int\<close> is formatted and
  parsed in decimal; the limit Python puts on the number of digits of such a conversion
  (4300 unless configured) is not modelled.
\<close>

datatype field = NoField | NonText | Text string

record message =
  msg_content :: field
  msg_role :: "string option"

definition digit_char :: "nat \<Rightarrow> char" where
  "digit_char d = char_of (48 + d)"

fun digits :: "nat \<Rightarrow> string" where
  "digits n = (if n < 10 then [digit_char n] else digits (n div 10) @ [digit_char (n mod 10)])"

declare digits.simps [simp del]

definition str_int :: "int \<Rightarrow> string" where
  \<comment> \<open>how an f-string formats an \<open>int\<close>\<close>
  "str_int i = (if i < 0 then CHR ''-'' # digits (nat (- i)) else digits (nat i))"

definition make_id :: "string \<Rightarrow> int \<Rightarrow> string" where
  "make_id session_key msg_idx = session_key @ ''_'' @ str_int msg_idx"

definition add_message :: "disk \<Rightarrow> store \<Rightarrow> string \<Rightarrow> message \<Rightarrow> int \<Rightarrow> exn + store" where
  "add_message dk st session_key msg msg_idx =
     (case msg_content msg of
        Text c \<Rightarrow>
          if c = [] then Inr st
          else let content = strip c
               in if content = [] then Inr st
                  else let new_id = make_id session_key msg_idx
                       in if list_ex (\<lambda>d. doc_id d = new_id) (documents st) then Inr st
                          else let vector = tokenize content
                               in if vector = [] then Inr st
                                  else save_index dk
                                         (st\<lparr>documents := documents st @
                                            [\<lparr>doc_id = new_id, session = session_key,
                                              role = (case msg_role msg of None \<Rightarrow> ''user'' | Some r \<Rightarrow> r),
                                              content = content, vector = vector\<rparr>]\<rparr>)
      | _ \<Rightarrow> Inr st)"

fun add_messages :: "store \<Rightarrow> (disk \<times> string \<times> message \<times> int) list \<Rightarrow> exn + store" where
  \<comment> \<open>a run of \<open>add_message\<close> calls, each with what the disk does on that call\<close>
  "add_messages st [] = Inr st"
| "add_messages st ((dk, session_key, msg, msg_idx) # calls) =
     (case add_message dk st session_key msg msg_idx of
        Inl e \<Rightarrow> Inl e
      | Inr st' \<Rightarrow> add_messages st' calls)"

section \<open>Searching\<close>

fun split_on :: "char \<Rightarrow> string \<Rightarrow> string list" where
  \<comment> \<open>\<open>s.split(sep)\<close> for a one-character separator\<close>
  "split_on sep [] = [[]]"
| "split_on sep (c # cs) =
     (if c = sep then [] # split_on sep cs
      else (case split_on sep cs of p # ps \<Rightarrow> (c # p) # ps | [] \<Rightarrow> [[c]]))"

definition int_space :: "char \<Rightarrow> bool" where
  \<comment> \<open>the white space \<open>int()\<close> skips around a number\<close>
  "int_space c = (let n = code_point c in (9 \<le> n \<and> n \<le> 13) \<or> n = 32 \<or> n = 133 \<or> n = 160)"

definition digit_value :: "char \<Rightarrow> nat option" where
  "digit_value c = (let n = code_point c in if 48 \<le> n \<and> n \<le> 57 then Some (n - 48) else None)"

fun parse_digits :: "string \<Rightarrow> nat \<Rightarrow> nat option" where
  "parse_digits [] acc = Some acc"
| "parse_digits (c # cs) acc =
     (case digit_value c of None \<Rightarrow> None | Some d \<Rightarrow> parse_digits cs (10 * acc + d))"

definition parse_nat :: "string \<Rightarrow> nat option" where
  "parse_nat s = (if s = [] then None else parse_digits s 0)"

definition parse_int :: "string \<Rightarrow> exn + int" where
  \<comment> \<open>\<open>int(s)\<close> for a string without underscores, as a piece of \<open>split('_')\<close> is\<close>
  "parse_int s =
     (let t = rev (dropWhile int_space (rev (dropWhile int_space s)));
          r = (case t of
                 [] \<Rightarrow> None
               | c # u \<Rightarrow>
                   if c = CHR ''-'' then map_option (\<lambda>n. - int n) (parse_nat u)
                   else if c = CHR ''+'' then map_option int (parse_nat u)
                   else map_option int (parse_nat t))
      in case r of None \<Rightarrow> Inl ValueError | Some i \<Rightarrow> Inr i)"

definition sequence_key :: "document \<Rightarrow> exn + int" where
  \<comment> \<open>\<open>int(doc["id"].split("_")[-1])\<close>\<close>
  "sequence_key d = parse_int (last (split_on CHR ''_'' (doc_id d)))"

definition slice_to :: "int \<Rightarrow> 'a list \<Rightarrow> 'a list" where
  \<comment> \<open>\<open>xs[:k]\<close>; a negative \<open>k\<close> counts from the end\<close>
  "slice_to k xs = (if 0 \<le> k then take (nat k) xs else take (nat (int (length xs) + k)) xs)"

definition session_docs :: "store \<Rightarrow> string \<Rightarrow> document list" where
  "session_docs st session_key = filter (\<lambda>d. session d = session_key) (documents st)"

definition scored_docs :: "store \<Rightarrow> string \<Rightarrow> tf_vector \<Rightarrow> (rat \<times> document) list" where
  "scored_docs st session_key query_vec =
     filter (\<lambda>(score, doc). threshold < score)
       (map (\<lambda>doc. (cosine_similarity query_vec (vector doc), doc)) (session_docs st session_key))"

definition by_relevance :: "(rat \<times> document) list \<Rightarrow> (rat \<times> document) list" where
  \<comment> \<open>\<open>sort(key=lambda x: x[0], reverse=True)\<close>: descending, and stable as any Python sort\<close>
  "by_relevance xs = sort_key (\<lambda>x. - fst x) xs"

definition chronological :: "(rat \<times> document) list \<Rightarrow> exn + (rat \<times> document) list" where
  \<comment> \<open>\<open>sort(key=...)\<close> computes every key first, so a key that raises aborts the sort\<close>
  "chronological xs =
     (if list_ex (\<lambda>x. isl (sequence_key (snd x))) xs then Inl ValueError
      else Inr (sort_key (\<lambda>x. projr (sequence_key (snd x))) xs))"

record retrieved =
  out_role :: string
  out_content :: string
  is_from_vector :: bool

definition to_message :: "document \<Rightarrow> retrieved" where
  "to_message doc =
     \<lparr>out_role = role doc, out_content = ''[From Past Context]: '' @ content doc,
      is_from_vector = True\<rparr>"

definition top_docs :: "store \<Rightarrow> string \<Rightarrow> string \<Rightarrow> int \<Rightarrow> exn + (rat \<times> document) list" where
  \<comment> \<open>the list \<open>top_docs\<close> of \<open>search_messages\<close> after its second sort\<close>
  "top_docs st session_key query top_k =
     (if query = [] \<or> strip query = [] \<or> documents st = [] then Inr []
      else let query_vec = tokenize query
           in if query_vec = [] then Inr []
              else chronological (slice_to top_k (by_relevance (scored_docs st session_key query_vec))))"

definition search_messages :: "store \<Rightarrow> string \<Rightarrow> string \<Rightarrow> int \<Rightarrow> exn + retrieved list" where
  "search_messages st session_key query top_k =
     (case top_docs st session_key query top_k of
        Inl e \<Rightarrow> Inl e
      | Inr selected \<Rightarrow> Inr (map (\<lambda>(score, doc). to_message doc) selected))"

definition search_messages_default :: "store \<Rightarrow> string \<Rightarrow> string \<Rightarrow> exn + retrieved list" where
  \<comment> \<open>the call without \<open>top_k\<close>\<close>
  "search_messages_default st session_key query = search_messages st session_key query 4"

section \<open>An example store\<close>

definition says :: "string \<Rightarrow> string \<Rightarrow> message" where
  "says r c = \<lparr>msg_content = Text c, msg_role = Some r\<rparr>"

definition example_calls :: "(disk \<times> string \<times> message \<times> int) list" where
  "example_calls =
     [(Writes, ''s_1'', says ''user'' ''apples apples pears'', 0),
      (Writes, ''s_1'', says ''assistant'' ''Apples!'', 1),
      (Writes, ''s_1'', says ''user'' ''apples, pears'', 2),
      (Writes, ''s_1'', says ''user'' ''apples or plums'', 3),
      (Writes, ''s_1'', says ''user'' ''only pears'', 4),
      (Writes, ''s2'', says ''user'' ''apples are red'', 0)]"

definition example_store :: store where
  "example_store =
     (case add_messages (new_store Absent) example_calls of
        Inr st \<Rightarrow> st
      | Inl e \<Rightarrow> new_store Absent)"

definition example_top_two :: "retrieved list" where
  "example_top_two =
     [\<lparr>out_role = ''user'', out_content = ''[From Past Context]: apples apples pears'',
       is_from_vector = True\<rparr>,
      \<lparr>out_role = ''assistant'', out_content = ''[From Past Context]: Apples!'',
       is_from_vector = True\<rparr>]"

definition example_top_three :: "retrieved list" where
  "example_top_three =
     example_top_two @
     [\<lparr>out_role = ''user'', out_content = ''[From Past Context]: apples, pears'',
       is_from_vector = True\<rparr>]"

section \<open>Calling twice\<close>

definition add_twice ::
  "disk \<Rightarrow> disk \<Rightarrow> store \<Rightarrow> string \<Rightarrow> message \<Rightarrow> int \<Rightarrow> exn + store" where
  \<comment> \<open>\<open>add_message\<close> called twice with the same arguments\<close>
  "add_twice dk dk' st session_key msg msg_idx =
     (case add_message dk st session_key msg msg_idx of
        Inl e \<Rightarrow> Inl e
      | Inr st' \<Rightarrow> add_message dk' st' session_key msg msg_idx)"

definition count_id :: "store \<Rightarrow> string \<Rightarrow> nat" where
  \<comment> \<open>how many stored documents have the id\<close>
  "count_id st i = length (filter (\<lambda>d. doc_id d = i) (documents st))"

definition created :: "string \<Rightarrow> message \<Rightarrow> int \<Rightarrow> string \<Rightarrow> document" where
  \<comment> \<open>the document \<open>add_message\<close> appends for a message whose content is \<open>c\<close>\<close>
  "created session_key msg msg_idx c =
     \<lparr>doc_id = make_id session_key msg_idx, session = session_key,
      role = (case msg_role msg of None \<Rightarrow> ''user'' | Some r \<Rightarrow> r),
      content = strip c, vector = tokenize (strip c)\<rparr>"

section \<open>Tokenizer: properties\<close>

lemma pieces_nonempty: "pieces s \<noteq> []"
  by (induction s) (auto split: list.splits)

lemma pieces_takeWhile:
  "pieces s = takeWhile word_char s # (case dropWhile word_char s of [] \<Rightarrow> [] | _ # r \<Rightarrow> pieces r)"
proof (induction s)
  case Nil
  show ?case by simp
next
  case (Cons c cs)
  show ?case
  proof (cases "word_char c")
    case True
    with Cons show ?thesis by (simp split: list.splits)
  next
    case False
    then show ?thesis by simp
  qed
qed

lemma maximal_runs_Nil: "maximal_runs [] = []"
  by (simp add: maximal_runs_def)

lemma maximal_runs_sep: "\<not> word_char c \<Longrightarrow> maximal_runs (c # cs) = maximal_runs cs"
  by (simp add: maximal_runs_def)

lemma maximal_runs_dropWhile_sep:
  "maximal_runs (dropWhile word_char s) = (case dropWhile word_char s of [] \<Rightarrow> [] | _ # r \<Rightarrow> maximal_runs r)"
proof (cases "dropWhile word_char s")
  case Nil
  show ?thesis unfolding Nil by (simp add: maximal_runs_Nil)
next
  case (Cons d r)
  then have "\<not> word_char d"
    by (metis hd_dropWhile list.distinct(1) list.sel(1))
  then show ?thesis unfolding Cons by (simp add: maximal_runs_sep)
qed

lemma maximal_runs_word:
  assumes "word_char c"
  shows "maximal_runs (c # cs) = (c # takeWhile word_char cs) # maximal_runs (dropWhile word_char cs)"
proof -
  let ?rest = "case dropWhile word_char cs of [] \<Rightarrow> [] | _ # r \<Rightarrow> pieces r"
  have "pieces (c # cs) = (c # takeWhile word_char cs) # ?rest"
    using assms by (subst pieces_takeWhile) simp
  then have "maximal_runs (c # cs) = (c # takeWhile word_char cs) # filter (\<lambda>p. p \<noteq> []) ?rest"
    unfolding maximal_runs_def by simp
  moreover have "filter (\<lambda>p. p \<noteq> []) (case ds of [] \<Rightarrow> [] | _ # r \<Rightarrow> pieces r)
      = (case ds of [] \<Rightarrow> [] | _ # r \<Rightarrow> maximal_runs r)" for ds :: string
    by (cases ds) (simp_all add: maximal_runs_def)
  then have "filter (\<lambda>p. p \<noteq> []) ?rest = maximal_runs (dropWhile word_char cs)"
    unfolding maximal_runs_dropWhile_sep .
  ultimately show ?thesis by simp
qed

lemma findall_words_runs: "findall_words s = maximal_runs s"
proof (induction s rule: findall_words.induct)
  case 1
  show ?case by (simp add: maximal_runs_Nil)
next
  case (2 c cs)
  then show ?case by (simp add: maximal_runs_word maximal_runs_sep)
qed

lemma dict_get_update:
  "dict_get (AList.update k v d) k' dflt = (if k' = k then v else dict_get d k' dflt)"
  by (simp add: dict_get_def update_conv)

lemma tally_distinct: "distinct (map fst freq) \<Longrightarrow> distinct (map fst (tally ws freq))"
  by (induction ws arbitrary: freq) (simp_all add: distinct_update)

lemma tally_map_of:
  "map_of (tally ws freq) w =
     (if count_list (filter (\<lambda>p. 2 < length p) ws) w = 0 then map_of freq w
      else Some (dict_get freq w 0 + int (count_list (filter (\<lambda>p. 2 < length p) ws) w)))"
proof (induction ws arbitrary: freq)
  case Nil
  show ?case by simp
next
  case (Cons a ws)
  show ?case
  proof (cases "2 < length a")
    case False
    then show ?thesis by (simp add: Cons.IH)
  next
    case True
    then show ?thesis
      by (simp add: Cons.IH dict_get_update update_conv)
  qed
qed

lemma tally_short: "\<forall>w\<in>set ws. length w \<le> 2 \<Longrightarrow> tally ws freq = freq"
  by (induction ws arbitrary: freq) auto

lemma tally_long:
  assumes "w \<in> set ws" and "2 < length w"
  shows "tally ws freq \<noteq> []"
proof
  assume "tally ws freq = []"
  then have "map_of (tally ws freq) w = None" by simp
  moreover have "count_list (filter (\<lambda>p. 2 < length p) ws) w \<noteq> 0"
    using assms by (simp add: count_list_0_iff)
  ultimately show False by (simp add: tally_map_of)
qed

lemma tally_keys:
  assumes "k \<in> set (map fst (tally ws []))"
  shows "2 < length k"
proof -
  from assms have "map_of (tally ws []) k \<noteq> None"
    by (simp add: map_of_eq_None_iff)
  then have "count_list (filter (\<lambda>p. 2 < length p) ws) k \<noteq> 0"
    by (simp add: tally_map_of split: if_splits)
  then have "k \<in> set (filter (\<lambda>p. 2 < length p) ws)"
    by (simp add: count_list_0_iff)
  then show ?thesis by simp
qed

text \<open>
  Claim C7. The tokenizer is a function of its text alone. The tokens it counts are the
  maximal runs of word characters of the lower-cased text; a term is a key of the result
  exactly when some token longer than two characters equals it, and its value is the
  number of such tokens; the result is empty exactly when no token is longer than two
  characters; no key has two characters or fewer.
\<close>

theorem tokenize_term_frequency:
  "findall_words (lower text) = maximal_runs (lower text)
   \<and> distinct (map fst (tokenize text))
   \<and> map_of (tokenize text) w =
       (if spec_frequency text w = 0 then None else Some (int (spec_frequency text w)))
   \<and> (tokenize text = [] \<longleftrightarrow> (\<forall>p\<in>set (maximal_runs (lower text)). length p \<le> 2))
   \<and> (\<forall>k\<in>set (map fst (tokenize text)). 2 < length k)"
proof (intro conjI)
  show "findall_words (lower text) = maximal_runs (lower text)"
    by (rule findall_words_runs)
  show "distinct (map fst (tokenize text))"
    by (simp add: tokenize_def tally_distinct)
  show "map_of (tokenize text) w =
       (if spec_frequency text w = 0 then None else Some (int (spec_frequency text w)))"
    by (simp add: tokenize_def spec_frequency_def tally_map_of findall_words_runs dict_get_def)
  show "tokenize text = [] \<longleftrightarrow> (\<forall>p\<in>set (maximal_runs (lower text)). length p \<le> 2)"
    unfolding tokenize_def findall_words_runs
    using tally_short [of "maximal_runs (lower text)" "[]"] tally_long [of _ "maximal_runs (lower text)" "[]"]
    by (metis not_le_imp_less)
  show "\<forall>k\<in>set (map fst (tokenize text)). 2 < length k"
    unfolding tokenize_def using tally_keys by blast
qed

theorem tokenize_term_frequency_witness:
  "map_of (tokenize ''The cat, the CAT and an ox'') ''cat'' = Some 2
   \<and> spec_frequency ''The cat, the CAT and an ox'' ''cat'' = 2
   \<and> map_of (tokenize ''The cat, the CAT and an ox'') ''ox'' = None
   \<and> maximal_runs (lower ''an ox'') = [''an'', ''ox'']
   \<and> tokenize ''an ox'' = []
   \<and> distinct (map fst (tokenize ''The cat, the CAT and an ox''))"
proof -
  have a: "spec_frequency ''The cat, the CAT and an ox'' ''cat'' = 2" by code_simp
  have b: "spec_frequency ''The cat, the CAT and an ox'' ''ox'' = 0" by code_simp
  have c: "maximal_runs (lower ''an ox'') = [''an'', ''ox'']" by code_simp
  show ?thesis
    using a b c
      tokenize_term_frequency [of "''The cat, the CAT and an ox''" "''cat''"]
      tokenize_term_frequency [of "''The cat, the CAT and an ox''" "''ox''"]
      tokenize_term_frequency [of "''an ox''" "''ox''"]
    by simp
qed

subsection \<open>Search: the pipeline\<close>

lemma strip_empty_all_space:
  assumes "strip s = []"
  shows "\<forall>c\<in>set s. space_char c"
proof -
  from assms have "dropWhile space_char (rev (dropWhile space_char s)) = []"
    by (simp add: strip_def)
  then have "\<forall>c\<in>set (dropWhile space_char s). space_char c"
    by simp
  then have "dropWhile space_char s = []"
    by (metis hd_dropWhile list.set_sel(1))
  then show ?thesis by simp
qed

lemma space_not_word: "space_char c \<Longrightarrow> \<not> word_char (lower_char c)"
  by (auto simp: space_char_def word_char_def lower_char_def Let_def)

lemma findall_words_no_word: "\<forall>c\<in>set s. \<not> word_char c \<Longrightarrow> findall_words s = []"
  by (induction s) auto

lemma tokenize_blank: "strip s = [] \<Longrightarrow> tokenize s = []"
  using strip_empty_all_space [of s]
  by (simp add: tokenize_def lower_def findall_words_no_word space_not_word)

lemma fl_sqrt_0: "fl_sqrt (fl_of_int 0) = 0"
  by (simp add: fl_sqrt_def fl_of_int_def fl_round_def)

lemma cosine_similarity_Nil: "cosine_similarity [] v = 0"
  by (simp add: cosine_similarity_def fl_sqrt_0 Let_def)

lemma threshold_value: "threshold = 3602879701896397 / 72057594037927936"
  by code_simp

lemma threshold_pos: "0 < threshold"
  by (simp add: threshold_value)

lemma scored_docs_Nil: "scored_docs st sk [] = []"
  using threshold_pos by (simp add: scored_docs_def cosine_similarity_Nil filter_empty_conv)

lemma scored_docs_no_documents: "documents st = [] \<Longrightarrow> scored_docs st sk qv = []"
  by (simp add: scored_docs_def session_docs_def)

lemma chronological_Nil: "chronological [] = Inr []"
  by (simp add: chronological_def)

lemma slice_to_Nil: "slice_to k [] = []"
  by (simp add: slice_to_def)

lemma by_relevance_Nil: "by_relevance [] = []"
  by (simp add: by_relevance_def)

lemma top_docs_eq:
  "top_docs st sk q k = chronological (slice_to k (by_relevance (scored_docs st sk (tokenize q))))"
proof -
  have "scored_docs st sk (tokenize q) = []"
    if "q = [] \<or> strip q = [] \<or> documents st = [] \<or> tokenize q = []"
    using that tokenize_blank [of q] scored_docs_Nil [of st sk] scored_docs_no_documents [of st sk]
    by (auto simp: strip_def)
  then show ?thesis
    by (auto simp: top_docs_def Let_def chronological_Nil slice_to_Nil by_relevance_Nil)
qed

lemma scored_docs_member:
  assumes "x \<in> set (scored_docs st sk qv)"
  shows "snd x \<in> set (session_docs st sk)"
    and "fst x = cosine_similarity qv (vector (snd x))"
    and "threshold < fst x"
  using assms by (auto simp: scored_docs_def)

lemma session_docs_member:
  "d \<in> set (session_docs st sk) \<longleftrightarrow> d \<in> set (documents st) \<and> session d = sk"
  by (simp add: session_docs_def)

lemma set_slice_to: "set (slice_to k xs) \<subseteq> set xs"
  by (auto simp: slice_to_def dest: in_set_takeD)

lemma set_by_relevance: "set (by_relevance xs) = set xs"
  by (simp add: by_relevance_def)

lemma chronological_Inr:
  assumes "chronological xs = Inr ys"
  shows "ys = sort_key (\<lambda>x. projr (sequence_key (snd x))) xs"
    and "\<forall>x\<in>set xs. \<not> isl (sequence_key (snd x))"
  using assms by (auto simp: chronological_def list_ex_iff split: if_splits)

lemma chronological_mset:
  assumes "chronological xs = Inr ys"
  shows "mset ys = mset xs" and "set ys = set xs" and "length ys = length xs"
  using chronological_Inr(1) [OF assms] by simp_all

lemma top_docs_subset:
  assumes "top_docs st sk q k = Inr sel"
  shows "set sel \<subseteq> set (scored_docs st sk (tokenize q))"
proof -
  from assms have "set sel = set (slice_to k (by_relevance (scored_docs st sk (tokenize q))))"
    by (simp add: top_docs_eq chronological_mset(2))
  then show ?thesis
    using set_slice_to [of k "by_relevance (scored_docs st sk (tokenize q))"]
    by (simp add: set_by_relevance)
qed

lemma search_messages_Inr:
  "search_messages st sk q k = Inr out \<longleftrightarrow>
     (\<exists>sel. top_docs st sk q k = Inr sel \<and> out = map (\<lambda>x. to_message (snd x)) sel)"
  by (auto simp: search_messages_def case_prod_beta split: sum.splits)

text \<open>
  Claim C1. For session keys \<open>A \<noteq> B\<close> and any query, every record that
  \<open>search_messages\<close> returns for \<open>A\<close> is made from a stored document whose session
  field is \<open>A\<close>, so none is made from a document of \<open>B\<close>; and the documents that
  are scored and kept as candidates are all stored documents of session \<open>A\<close>.
\<close>

theorem search_session_isolation:
  assumes "A \<noteq> B" and "search_messages st A q k = Inr out"
  shows "\<exists>sel. top_docs st A q k = Inr sel \<and> out = map (\<lambda>x. to_message (snd x)) sel
           \<and> (\<forall>x\<in>set sel. snd x \<in> set (documents st) \<and> session (snd x) = A \<and> session (snd x) \<noteq> B)
           \<and> snd ` set (scored_docs st A (tokenize q)) \<subseteq> {d \<in> set (documents st). session d = A}"
proof -
  from assms(2) obtain sel where sel: "top_docs st A q k = Inr sel"
    and out: "out = map (\<lambda>x. to_message (snd x)) sel"
    by (auto simp: search_messages_Inr)
  have scored: "snd x \<in> set (documents st) \<and> session (snd x) = A"
    if "x \<in> set (scored_docs st A (tokenize q))" for x
    using scored_docs_member(1) [OF that] by (simp add: session_docs_member)
  have "\<forall>x\<in>set sel. snd x \<in> set (documents st) \<and> session (snd x) = A \<and> session (snd x) \<noteq> B"
    using top_docs_subset [OF sel] scored assms(1) by blast
  moreover have "snd ` set (scored_docs st A (tokenize q)) \<subseteq> {d \<in> set (documents st). session d = A}"
    using scored by blast
  ultimately show ?thesis using sel out by blast
qed

text \<open>
  Claim C4. Every record that \<open>search_messages\<close> returns is made from a document whose
  cosine similarity with the query vector is strictly above the threshold; a document
  whose similarity is at most the threshold, the threshold itself included, is never
  selected. The threshold is one constant, the float written \<open>0.05\<close>.
\<close>

theorem search_relevance_floor:
  assumes "search_messages st sk q k = Inr out"
  shows "\<exists>sel. top_docs st sk q k = Inr sel \<and> out = map (\<lambda>x. to_message (snd x)) sel
           \<and> (\<forall>x\<in>set sel. fst x = cosine_similarity (tokenize q) (vector (snd x)) \<and> threshold < fst x)
           \<and> (\<forall>x\<in>set sel. \<not> cosine_similarity (tokenize q) (vector (snd x)) \<le> threshold)
           \<and> threshold = 3602879701896397 / 72057594037927936"
proof -
  from assms obtain sel where sel: "top_docs st sk q k = Inr sel"
    and out: "out = map (\<lambda>x. to_message (snd x)) sel"
    by (auto simp: search_messages_Inr)
  have "fst x = cosine_similarity (tokenize q) (vector (snd x)) \<and> threshold < fst x"
    if "x \<in> set sel" for x
    using that top_docs_subset [OF sel] scored_docs_member(2,3) [of x st sk "tokenize q"] by blast
  then show ?thesis using sel out threshold_value by fastforce
qed

subsection \<open>Decimal numbers and identifiers\<close>

lemma code_point_digit_char: "d < 10 \<Longrightarrow> code_point (digit_char d) = 48 + d"
  by (simp add: code_point_def digit_char_def)

lemma digit_value_digit_char: "d < 10 \<Longrightarrow> digit_value (digit_char d) = Some d"
  by (simp add: digit_value_def code_point_digit_char)

lemma digits_nonempty: "digits n \<noteq> []"
  by (subst digits.simps) simp

lemma digits_are_digits: "c \<in> set (digits n) \<Longrightarrow> \<exists>d<10. c = digit_char d"
proof (induction n rule: digits.induct)
  case (1 n)
  show ?case
  proof (cases "n < 10")
    case True
    with "1.prems" show ?thesis by (subst (asm) digits.simps) auto
  next
    case False
    with "1.prems" have "c \<in> set (digits (n div 10)) \<or> c = digit_char (n mod 10)"
      by (subst (asm) digits.simps) auto
    with False "1.IH" show ?thesis by (metis mod_less_divisor zero_less_numeral)
  qed
qed

lemma parse_digits_append:
  "parse_digits (xs @ ys) acc =
     (case parse_digits xs acc of None \<Rightarrow> None | Some a \<Rightarrow> parse_digits ys a)"
  by (induction xs arbitrary: acc) (auto split: option.splits)

lemma parse_digits_digits: "parse_digits (digits n) 0 = Some n"
proof (induction n rule: digits.induct)
  case (1 n)
  show ?case
  proof (cases "n < 10")
    case True
    then show ?thesis by (subst digits.simps) (simp add: digit_value_digit_char)
  next
    case False
    with "1.IH" show ?thesis
      by (subst digits.simps) (simp add: parse_digits_append digit_value_digit_char)
  qed
qed

lemma parse_nat_digits: "parse_nat (digits n) = Some n"
  by (simp add: parse_nat_def digits_nonempty parse_digits_digits)

lemma digit_char_plain:
  assumes "d < 10"
  shows "\<not> int_space (digit_char d)" and "digit_char d \<noteq> CHR ''-''"
    and "digit_char d \<noteq> CHR ''+''" and "digit_char d \<noteq> CHR ''_''"
proof -
  have cp: "code_point (digit_char d) = 48 + d" using assms by (rule code_point_digit_char)
  show "\<not> int_space (digit_char d)" using assms by (simp add: int_space_def cp)
  have "code_point CHR ''-'' = 45" "code_point CHR ''+'' = 43" "code_point CHR ''_'' = 95"
    by (simp_all add: code_point_def)
  with cp assms show "digit_char d \<noteq> CHR ''-''" "digit_char d \<noteq> CHR ''+''" "digit_char d \<noteq> CHR ''_''"
    by auto
qed

lemma minus_plain: "\<not> int_space CHR ''-''"
  by (simp add: int_space_def code_point_def)

lemma dropWhile_keep: "xs \<noteq> [] \<Longrightarrow> \<not> P (hd xs) \<Longrightarrow> dropWhile P xs = xs"
  by (cases xs) auto

lemma trim_id:
  assumes "s \<noteq> []" and "\<not> P (hd s)" and "\<not> P (last s)"
  shows "rev (dropWhile P (rev (dropWhile P s))) = s"
proof -
  have "dropWhile P s = s" using assms(1,2) by (rule dropWhile_keep)
  moreover have "dropWhile P (rev s) = rev s"
    using assms(1,3) by (intro dropWhile_keep) (simp_all add: hd_rev)
  ultimately show ?thesis by simp
qed

lemma hd_digits: "\<exists>d<10. hd (digits n) = digit_char d"
  using digits_are_digits [of "hd (digits n)" n] digits_nonempty [of n] by simp

lemma last_digits: "\<exists>d<10. last (digits n) = digit_char d"
  using digits_are_digits [of "last (digits n)" n] digits_nonempty [of n] by simp

lemma parse_int_str_int: "parse_int (str_int i) = Inr i"
proof (cases "i < 0")
  case False
  obtain c u where cu: "digits (nat i) = c # u"
    using digits_nonempty [of "nat i"] by (cases "digits (nat i)") auto
  have "rev (dropWhile int_space (rev (dropWhile int_space (digits (nat i))))) = digits (nat i)"
    using hd_digits [of "nat i"] last_digits [of "nat i"] digit_char_plain(1)
    by (intro trim_id) (auto simp: digits_nonempty)
  moreover have "c \<noteq> CHR ''-''" "c \<noteq> CHR ''+''"
    using hd_digits [of "nat i"] digit_char_plain(2,3) cu by auto
  ultimately show ?thesis
    using False cu parse_nat_digits [of "nat i"] by (simp add: parse_int_def str_int_def)
next
  case True
  have "last (CHR ''-'' # digits (nat (- i))) = last (digits (nat (- i)))"
    by (simp add: digits_nonempty)
  then have "rev (dropWhile int_space (rev (dropWhile int_space (CHR ''-'' # digits (nat (- i))))))
      = CHR ''-'' # digits (nat (- i))"
    using last_digits [of "nat (- i)"] digit_char_plain(1) minus_plain
    by (intro trim_id) auto
  then show ?thesis
    using True parse_nat_digits [of "nat (- i)"] by (simp add: parse_int_def str_int_def)
qed

lemma digits_no_underscore: "CHR ''_'' \<notin> set (digits n)"
proof
  assume "CHR ''_'' \<in> set (digits n)"
  from digits_are_digits [OF this] obtain d where d: "d < 10" "CHR ''_'' = digit_char d"
    by auto
  from digit_char_plain(4) [OF d(1)] d(2) show False by simp
qed

lemma str_int_no_underscore: "CHR ''_'' \<notin> set (str_int i)"
  by (simp add: str_int_def digits_no_underscore)

lemma split_on_nonempty: "split_on sep s \<noteq> []"
  by (induction s) (auto split: list.splits)

lemma split_on_no_sep: "sep \<notin> set s \<Longrightarrow> split_on sep s = [s]"
  by (induction s) auto

lemma split_on_two: "sep \<in> set s \<Longrightarrow> \<exists>p q r. split_on sep s = p # q # r"
proof (induction s)
  case Nil
  then show ?case by simp
next
  case (Cons c s)
  show ?case
  proof (cases "c = sep")
    case True
    then show ?thesis using split_on_nonempty [of sep s] by (cases "split_on sep s") auto
  next
    case False
    with Cons.prems have "sep \<in> set s" by simp
    with Cons.IH obtain p q r where "split_on sep s = p # q # r" by blast
    with False show ?thesis by simp
  qed
qed

lemma last_split_on:
  "last (split_on sep (a @ sep # b)) = last (split_on sep b)"
proof (induction a)
  case Nil
  show ?case by (simp add: split_on_nonempty)
next
  case (Cons c a)
  show ?case
  proof (cases "c = sep")
    case True
    with Cons show ?thesis by (simp add: split_on_nonempty)
  next
    case False
    obtain p q r where "split_on sep (a @ sep # b) = p # q # r"
      using split_on_two [of sep "a @ sep # b"] by auto
    with False Cons show ?thesis by simp
  qed
qed

lemma sequence_key_make_id:
  "doc_id d = make_id session_key i \<Longrightarrow> sequence_key d = Inr i"
  using last_split_on [of "CHR ''_''" session_key "str_int i"]
  by (simp add: sequence_key_def make_id_def split_on_no_sep str_int_no_underscore parse_int_str_int)

subsection \<open>Search: selection and order\<close>

lemma by_relevance_sorted: "sorted (map (\<lambda>x. - fst x) (by_relevance xs))"
  by (simp add: by_relevance_def)

lemma by_relevance_mset: "mset (by_relevance xs) = mset xs"
  by (simp add: by_relevance_def)

lemma by_relevance_stable:
  "filter (\<lambda>x. fst x = s) (by_relevance xs) = filter (\<lambda>x. fst x = s) xs"
proof -
  have "filter (\<lambda>x. - fst x = - s) (sort_key (\<lambda>x. - fst x) xs) = filter (\<lambda>x. - fst x = - s) xs"
    by (rule sort_key_stable)
  then show ?thesis by (simp add: by_relevance_def)
qed

lemma take_dominates:
  assumes "sorted (map (\<lambda>x. - fst x) xs)" and "x \<in> set (take n xs)" and "y \<in> set (drop n xs)"
  shows "fst y \<le> (fst x :: rat)"
proof -
  have "sorted (map (\<lambda>x. - fst x) (take n xs) @ map (\<lambda>x. - fst x) (drop n xs))"
    using assms(1) by (simp flip: map_append)
  then have "- fst x \<le> - fst y"
    using assms(2,3) by (auto simp: sorted_append)
  then show ?thesis by simp
qed

lemma filter_take_prefix:
  "filter P (take n xs) = take (length (filter P (take n xs))) (filter P xs)"
proof (induction xs arbitrary: n)
  case Nil
  show ?case by simp
next
  case (Cons a xs)
  show ?case
  proof (cases n)
    case 0
    then show ?thesis by simp
  next
    case (Suc m)
    with Cons [of m] show ?thesis by simp
  qed
qed

lemma scored_docs_order:
  "map snd (scored_docs st sk qv) =
     filter (\<lambda>d. session d = sk \<and> threshold < cosine_similarity qv (vector d)) (documents st)"
  by (simp add: scored_docs_def session_docs_def filter_map comp_def case_prod_beta)

text \<open>
  Claim C5. For \<open>0 \<le> k\<close>, \<open>search_messages\<close> returns at most \<open>k\<close> records, and
  the call without \<open>top_k\<close> is the call with 4. The selected documents are the first
  \<open>k\<close> of the descending-similarity order, cut before the chronological sort: they are
  \<open>min k n\<close> of the \<open>n\<close> surviving candidates, and no candidate left out has a higher
  similarity than a selected one.
\<close>

theorem search_top_k:
  assumes "0 \<le> k" and "search_messages st sk q k = Inr out"
  shows "length out \<le> nat k
     \<and> search_messages_default st sk q = search_messages st sk q 4
     \<and> (\<exists>sel rest. top_docs st sk q k = Inr sel \<and> out = map (\<lambda>x. to_message (snd x)) sel
           \<and> mset sel = mset (take (nat k) (by_relevance (scored_docs st sk (tokenize q))))
           \<and> mset sel + mset rest = mset (scored_docs st sk (tokenize q))
           \<and> length sel = min (nat k) (length (scored_docs st sk (tokenize q)))
           \<and> (\<forall>x\<in>set sel. \<forall>y\<in>set rest. fst y \<le> fst x))"
proof -
  let ?ranked = "by_relevance (scored_docs st sk (tokenize q))"
  from assms(2) obtain sel where sel: "top_docs st sk q k = Inr sel"
    and out: "out = map (\<lambda>x. to_message (snd x)) sel"
    by (auto simp: search_messages_Inr)
  from sel assms(1) have chrono: "chronological (take (nat k) ?ranked) = Inr sel"
    by (simp add: top_docs_eq slice_to_def)
  have m: "mset sel = mset (take (nat k) ?ranked)"
    and s: "set sel = set (take (nat k) ?ranked)"
    and l: "length sel = length (take (nat k) ?ranked)"
    using chronological_mset [OF chrono] by simp_all
  have "mset (take (nat k) ?ranked) + mset (drop (nat k) ?ranked) = mset ?ranked"
    by (simp flip: mset_append)
  then have split: "mset sel + mset (drop (nat k) ?ranked) = mset (scored_docs st sk (tokenize q))"
    using m by (simp add: by_relevance_mset)
  have len: "length sel = min (nat k) (length (scored_docs st sk (tokenize q)))"
    using l by (simp add: by_relevance_def min.commute)
  have dom: "\<forall>x\<in>set sel. \<forall>y\<in>set (drop (nat k) ?ranked). fst y \<le> fst x"
    using take_dominates [OF by_relevance_sorted] s by blast
  have "length out \<le> nat k" using len out by simp
  moreover have "search_messages_default st sk q = search_messages st sk q 4"
    by (simp add: search_messages_default_def)
  ultimately show ?thesis using sel out m split len dom by blast
qed

text \<open>
  Claim C6. In the output of one \<open>search_messages\<close> call the sequence numbers parsed
  from the selected documents' ids are non-decreasing. The number is read from the text
  after the last underscore, so the id made from a session key and an index parses back to
  that index whatever underscores the session key contains.
\<close>

theorem search_chronological:
  "(\<forall>out. search_messages st sk q k = Inr out \<longrightarrow>
      (\<exists>sel keys. top_docs st sk q k = Inr sel \<and> out = map (\<lambda>x. to_message (snd x)) sel
         \<and> map (\<lambda>x. sequence_key (snd x)) sel = map Inr keys \<and> sorted keys))
   \<and> sequence_key (d\<lparr>doc_id := make_id session_key i\<rparr>) = Inr i"
proof (intro conjI allI impI)
  fix out
  assume "search_messages st sk q k = Inr out"
  then obtain sel where sel: "top_docs st sk q k = Inr sel"
    and out: "out = map (\<lambda>x. to_message (snd x)) sel"
    by (auto simp: search_messages_Inr)
  let ?xs = "slice_to k (by_relevance (scored_docs st sk (tokenize q)))"
  let ?key = "\<lambda>x. projr (sequence_key (snd x))"
  from sel have chrono: "chronological ?xs = Inr sel" by (simp add: top_docs_eq)
  have sorted: "sorted (map ?key sel)"
    using chronological_Inr(1) [OF chrono] by simp
  have "\<forall>x\<in>set sel. \<not> isl (sequence_key (snd x))"
    using chronological_Inr(2) [OF chrono] chronological_mset(2) [OF chrono] by simp
  then have "map (\<lambda>x. sequence_key (snd x)) sel = map Inr (map ?key sel)"
    by (auto simp: comp_def)
  with sorted sel out
  show "\<exists>sel keys. top_docs st sk q k = Inr sel \<and> out = map (\<lambda>x. to_message (snd x)) sel
         \<and> map (\<lambda>x. sequence_key (snd x)) sel = map Inr keys \<and> sorted keys"
    by blast
next
  show "sequence_key (d\<lparr>doc_id := make_id session_key i\<rparr>) = Inr i"
    by (rule sequence_key_make_id) simp
qed

text \<open>
  Claim C10. The descending sort keeps candidates of equal similarity in the order they
  had before it, which is the order of the store; so among the candidates of one
  similarity, those selected are the first ones in store order.
\<close>

theorem search_tie_break:
  assumes "0 \<le> k" and "search_messages st sk q k = Inr out"
  shows "filter (\<lambda>x. fst x = s) (by_relevance (scored_docs st sk (tokenize q)))
           = filter (\<lambda>x. fst x = s) (scored_docs st sk (tokenize q))
     \<and> map snd (scored_docs st sk (tokenize q))
           = filter (\<lambda>d. session d = sk \<and> threshold < cosine_similarity (tokenize q) (vector d))
               (documents st)
     \<and> (\<exists>sel m. top_docs st sk q k = Inr sel \<and> out = map (\<lambda>x. to_message (snd x)) sel
           \<and> mset (filter (\<lambda>x. fst x = s) sel)
               = mset (take m (filter (\<lambda>x. fst x = s) (scored_docs st sk (tokenize q)))))"
proof -
  let ?scored = "scored_docs st sk (tokenize q)"
  let ?tie = "\<lambda>x :: rat \<times> document. fst x = s"
  from assms(2) obtain sel where sel: "top_docs st sk q k = Inr sel"
    and out: "out = map (\<lambda>x. to_message (snd x)) sel"
    by (auto simp: search_messages_Inr)
  from sel assms(1) have chrono: "chronological (take (nat k) (by_relevance ?scored)) = Inr sel"
    by (simp add: top_docs_eq slice_to_def)
  have "mset (filter ?tie sel) = mset (filter ?tie (take (nat k) (by_relevance ?scored)))"
    using chronological_mset(1) [OF chrono] by (metis mset_filter)
  also have "filter ?tie (take (nat k) (by_relevance ?scored))
      = take (length (filter ?tie (take (nat k) (by_relevance ?scored)))) (filter ?tie (by_relevance ?scored))"
    by (rule filter_take_prefix)
  finally have "\<exists>m. mset (filter ?tie sel) = mset (take m (filter ?tie ?scored))"
    unfolding by_relevance_stable by blast
  with sel out show ?thesis
    using by_relevance_stable [of s ?scored] scored_docs_order [of st sk "tokenize q"] by blast
qed

subsection \<open>The store under \<open>add_message\<close>\<close>

lemma save_index_Inr:
  "\<exists>st'. save_index dk st = Inr st' \<and> documents st' = documents st
     \<and> logged st' = logged st @ (if dk = Writes then [] else [OSError])
     \<and> index_file st' = (case dk of Writes \<Rightarrow> Json (documents st)
                           | OpenFails \<Rightarrow> index_file st | WriteFails \<Rightarrow> Unparsable)"
  by (cases dk) (simp_all add: save_index_def write_json_def)

lemma add_message_skip:
  assumes "\<not> (\<exists>c. msg_content msg = Text c \<and> tokenize (strip c) \<noteq> []
              \<and> \<not> list_ex (\<lambda>d. doc_id d = make_id sk i) (documents st))"
  shows "add_message dk st sk msg i = Inr st"
proof (cases "msg_content msg")
  case (Text c)
  have "strip c = [] \<Longrightarrow> tokenize (strip c) = []"
    by (simp add: tokenize_def lower_def)
  with Text assms show ?thesis
    by (auto simp: add_message_def Let_def)
qed (simp_all add: add_message_def)

lemma add_message_append:
  assumes "msg_content msg = Text c" and "tokenize (strip c) \<noteq> []"
    and "\<not> list_ex (\<lambda>d. doc_id d = make_id sk i) (documents st)"
  shows "add_message dk st sk msg i
           = save_index dk (st\<lparr>documents := documents st @ [created sk msg i c]\<rparr>)"
proof -
  have "strip c \<noteq> []" using assms(2) by (auto simp: tokenize_def lower_def)
  moreover from this have "c \<noteq> []" by (auto simp: strip_def)
  ultimately show ?thesis
    using assms by (simp add: add_message_def Let_def created_def)
qed

lemma add_message_Inr:
  "\<exists>st'. add_message dk st sk msg i = Inr st'"
proof (cases "\<exists>c. msg_content msg = Text c \<and> tokenize (strip c) \<noteq> []
              \<and> \<not> list_ex (\<lambda>d. doc_id d = make_id sk i) (documents st)")
  case True
  then show ?thesis using add_message_append save_index_Inr by metis
next
  case False
  then show ?thesis using add_message_skip by blast
qed

lemma add_message_documents:
  assumes "add_message dk st sk msg i = Inr st'"
  shows "documents st' = documents st
         \<or> (\<exists>c. documents st' = documents st @ [created sk msg i c]
                \<and> \<not> list_ex (\<lambda>d. doc_id d = make_id sk i) (documents st))"
proof (cases "\<exists>c. msg_content msg = Text c \<and> tokenize (strip c) \<noteq> []
              \<and> \<not> list_ex (\<lambda>d. doc_id d = make_id sk i) (documents st)")
  case True
  then obtain c where c: "msg_content msg = Text c" "tokenize (strip c) \<noteq> []"
    "\<not> list_ex (\<lambda>d. doc_id d = make_id sk i) (documents st)" by blast
  from add_message_append [OF c] assms
  have "save_index dk (st\<lparr>documents := documents st @ [created sk msg i c]\<rparr>) = Inr st'" by simp
  with save_index_Inr [of dk "st\<lparr>documents := documents st @ [created sk msg i c]\<rparr>"] c(3)
  show ?thesis by auto
next
  case False
  with add_message_skip assms show ?thesis by fastforce
qed

lemma new_store_Absent: "documents (new_store Absent) = []"
  by (simp add: new_store_def load_index_def)

lemma example_search_two:
  "search_messages example_store ''s_1'' ''apples'' 2 = Inr example_top_two"
  by code_simp

lemma example_search_three:
  "search_messages example_store ''s_1'' ''apples'' 3 = Inr example_top_three"
  by code_simp

lemma example_sessions: "''s_1'' \<noteq> ''s2''"
  by simp

theorem search_session_isolation_witness:
  "''s_1'' \<noteq> ''s2''
   \<and> search_messages example_store ''s_1'' ''apples'' 2 = Inr example_top_two
   \<and> (\<exists>sel. top_docs example_store ''s_1'' ''apples'' 2 = Inr sel
         \<and> example_top_two = map (\<lambda>x. to_message (snd x)) sel
         \<and> (\<forall>x\<in>set sel. snd x \<in> set (documents example_store) \<and> session (snd x) = ''s_1''
               \<and> session (snd x) \<noteq> ''s2'')
         \<and> snd ` set (scored_docs example_store ''s_1'' (tokenize ''apples''))
             \<subseteq> {d \<in> set (documents example_store). session d = ''s_1''})"
  by (intro conjI example_sessions example_search_two
      search_session_isolation [OF example_sessions example_search_two])

theorem search_relevance_floor_witness:
  "search_messages example_store ''s_1'' ''apples'' 2 = Inr example_top_two
   \<and> (\<exists>sel. top_docs example_store ''s_1'' ''apples'' 2 = Inr sel
         \<and> example_top_two = map (\<lambda>x. to_message (snd x)) sel
         \<and> (\<forall>x\<in>set sel. fst x = cosine_similarity (tokenize ''apples'') (vector (snd x))
               \<and> threshold < fst x)
         \<and> (\<forall>x\<in>set sel. \<not> cosine_similarity (tokenize ''apples'') (vector (snd x)) \<le> threshold)
         \<and> threshold = 3602879701896397 / 72057594037927936)"
  by (intro conjI example_search_two search_relevance_floor [OF example_search_two])

lemma two_nonneg: "(0::int) \<le> 2"
  by simp

lemma three_nonneg: "(0::int) \<le> 3"
  by simp

theorem search_top_k_witness:
  "(0::int) \<le> 2
   \<and> search_messages example_store ''s_1'' ''apples'' 2 = Inr example_top_two
   \<and> (length example_top_two \<le> nat 2
       \<and> search_messages_default example_store ''s_1'' ''apples''
           = search_messages example_store ''s_1'' ''apples'' 4
       \<and> (\<exists>sel rest. top_docs example_store ''s_1'' ''apples'' 2 = Inr sel
             \<and> example_top_two = map (\<lambda>x. to_message (snd x)) sel
             \<and> mset sel = mset (take (nat 2)
                   (by_relevance (scored_docs example_store ''s_1'' (tokenize ''apples''))))
             \<and> mset sel + mset rest = mset (scored_docs example_store ''s_1'' (tokenize ''apples''))
             \<and> length sel = min (nat 2) (length (scored_docs example_store ''s_1'' (tokenize ''apples'')))
             \<and> (\<forall>x\<in>set sel. \<forall>y\<in>set rest. fst y \<le> fst x)))"
  by (intro conjI two_nonneg example_search_two search_top_k [OF two_nonneg example_search_two])

theorem search_chronological_witness:
  "search_messages example_store ''s_1'' ''apples'' 2 = Inr example_top_two
   \<and> (\<exists>sel keys. top_docs example_store ''s_1'' ''apples'' 2 = Inr sel
         \<and> example_top_two = map (\<lambda>x. to_message (snd x)) sel
         \<and> map (\<lambda>x. sequence_key (snd x)) sel = map Inr keys \<and> sorted keys)
   \<and> sequence_key (created ''a_b'' (says ''user'' ''apples'') 0 ''apples''
         \<lparr>doc_id := make_id ''a_b'' (- 7)\<rparr>) = Inr (- 7)"
  using search_chronological [where st = example_store and sk = "''s_1''" and q = "''apples''"
      and k = 2 and d = "created ''a_b'' (says ''user'' ''apples'') 0 ''apples''"
      and session_key = "''a_b''" and i = "- 7"]
    example_search_two
  by simp

lemma example_tie_class:
  "map (\<lambda>x. doc_id (snd x))
     (filter (\<lambda>x. fst x = 1592262918131443 / 2251799813685248) (scored_docs example_store ''s_1'' (tokenize ''apples'')))
     = [''s_1_2'', ''s_1_3'']"
  by code_simp

lemma example_tie_selected:
  "(case top_docs example_store ''s_1'' ''apples'' 3 of
      Inl e \<Rightarrow> []
    | Inr sel \<Rightarrow> map (\<lambda>x. doc_id (snd x)) (filter (\<lambda>x. fst x = 1592262918131443 / 2251799813685248) sel))
     = [''s_1_2'']"
  by code_simp

theorem search_tie_break_witness:
  "(0::int) \<le> 3
   \<and> search_messages example_store ''s_1'' ''apples'' 3 = Inr example_top_three
   \<and> (filter (\<lambda>x. fst x = 1592262918131443 / 2251799813685248)
          (by_relevance (scored_docs example_store ''s_1'' (tokenize ''apples'')))
           = filter (\<lambda>x. fst x = 1592262918131443 / 2251799813685248)
               (scored_docs example_store ''s_1'' (tokenize ''apples''))
     \<and> map snd (scored_docs example_store ''s_1'' (tokenize ''apples''))
           = filter (\<lambda>d. session d = ''s_1''
                 \<and> threshold < cosine_similarity (tokenize ''apples'') (vector d))
               (documents example_store)
     \<and> (\<exists>sel m. top_docs example_store ''s_1'' ''apples'' 3 = Inr sel
           \<and> example_top_three = map (\<lambda>x. to_message (snd x)) sel
           \<and> mset (filter (\<lambda>x. fst x = 1592262918131443 / 2251799813685248) sel)
               = mset (take m (filter (\<lambda>x. fst x = 1592262918131443 / 2251799813685248)
                     (scored_docs example_store ''s_1'' (tokenize ''apples''))))))
   \<and> map (\<lambda>x. doc_id (snd x))
        (filter (\<lambda>x. fst x = 1592262918131443 / 2251799813685248)
           (scored_docs example_store ''s_1'' (tokenize ''apples'')))
       = [''s_1_2'', ''s_1_3'']
   \<and> (case top_docs example_store ''s_1'' ''apples'' 3 of
         Inl e \<Rightarrow> []
       | Inr sel \<Rightarrow> map (\<lambda>x. doc_id (snd x)) (filter (\<lambda>x. fst x = 1592262918131443 / 2251799813685248) sel))
       = [''s_1_2'']"
  by (rule conjI [OF three_nonneg conjI [OF example_search_three
        conjI [OF search_tie_break [OF three_nonneg example_search_three]
          conjI [OF example_tie_class example_tie_selected]]]])

lemma count_id_none:
  "\<not> list_ex (\<lambda>d. doc_id d = x) (documents st) \<Longrightarrow> count_id st x = 0"
  by (simp add: count_id_def list_ex_iff filter_empty_conv)

lemma count_id_some:
  "list_ex (\<lambda>d. doc_id d = x) (documents st) \<Longrightarrow> 0 < count_id st x"
  by (auto simp: count_id_def list_ex_iff filter_empty_conv)

lemma add_message_again:
  assumes "add_message dk st sk msg i = Inr st1"
  shows "add_message dk' st1 sk msg i = Inr st1"
proof (cases "\<exists>c. msg_content msg = Text c \<and> tokenize (strip c) \<noteq> []
              \<and> \<not> list_ex (\<lambda>d. doc_id d = make_id sk i) (documents st)")
  case False
  from add_message_skip [OF False] assms have "st1 = st" by simp
  with add_message_skip [OF False] show ?thesis by simp
next
  case True
  then obtain c where c: "msg_content msg = Text c" "tokenize (strip c) \<noteq> []"
    "\<not> list_ex (\<lambda>d. doc_id d = make_id sk i) (documents st)" by blast
  from add_message_append [OF c] assms
  have "save_index dk (st\<lparr>documents := documents st @ [created sk msg i c]\<rparr>) = Inr st1" by simp
  with save_index_Inr [of dk "st\<lparr>documents := documents st @ [created sk msg i c]\<rparr>"]
  have "documents st1 = documents st @ [created sk msg i c]" by auto
  then have "list_ex (\<lambda>d. doc_id d = make_id sk i) (documents st1)"
    by (simp add: list_ex_iff created_def)
  then show ?thesis by (intro add_message_skip) simp
qed

lemma add_message_count:
  assumes "add_message dk st sk msg i = Inr st1"
    and "msg_content msg = Text c" and "tokenize (strip c) \<noteq> []"
    and "count_id st (make_id sk i) \<le> 1"
  shows "count_id st1 (make_id sk i) = 1"
proof (cases "list_ex (\<lambda>d. doc_id d = make_id sk i) (documents st)")
  case True
  then have "add_message dk st sk msg i = Inr st" by (intro add_message_skip) simp
  with assms(1) have "st1 = st" by simp
  with count_id_some [OF True] assms(4) show ?thesis by simp
next
  case False
  from add_message_append [OF assms(2,3) False] assms(1)
  have "save_index dk (st\<lparr>documents := documents st @ [created sk msg i c]\<rparr>) = Inr st1" by simp
  with save_index_Inr [of dk "st\<lparr>documents := documents st @ [created sk msg i c]\<rparr>"]
  have "documents st1 = documents st @ [created sk msg i c]" by auto
  with count_id_none [OF False] show ?thesis by (simp add: count_id_def created_def)
qed

text \<open>
  Claim C2, as amended. A second \<open>add_message\<close> call with the same session key, index and
  message returns the store the first call left, whatever the store and the message
  are. When the content has a token longer than two characters and the store holds at
  most one document with the id, exactly one stored document has the id after the two
  calls.
\<close>

theorem add_message_idempotent:
  "(\<exists>st1. add_message dk st sk msg i = Inr st1 \<and> add_message dk' st1 sk msg i = Inr st1
       \<and> add_twice dk dk' st sk msg i = Inr st1)
   \<and> (msg_content msg = Text c \<longrightarrow> tokenize (strip c) \<noteq> [] \<longrightarrow> count_id st (make_id sk i) \<le> 1 \<longrightarrow>
        (\<exists>st2. add_twice dk dk' st sk msg i = Inr st2 \<and> count_id st2 (make_id sk i) = 1))"
proof -
  obtain st1 where st1: "add_message dk st sk msg i = Inr st1"
    using add_message_Inr by blast
  have again: "add_message dk' st1 sk msg i = Inr st1"
    using st1 by (rule add_message_again)
  have twice: "add_twice dk dk' st sk msg i = Inr st1"
    using st1 again by (simp add: add_twice_def)
  have "count_id st1 (make_id sk i) = 1"
    if "msg_content msg = Text c" "tokenize (strip c) \<noteq> []" "count_id st (make_id sk i) \<le> 1"
    using add_message_count [OF st1 that] .
  with st1 again twice show ?thesis by blast
qed

lemma example_indexable: "tokenize (strip ''I like apples and oranges'') \<noteq> []"
  by code_simp

lemma example_content: "msg_content (says ''user'' ''I like apples and oranges'') = Text ''I like apples and oranges''"
  by (simp add: says_def)

lemma example_fresh: "\<not> list_ex (\<lambda>d. doc_id d = make_id ''s1'' 0) (documents (new_store Absent))"
  by (simp add: new_store_Absent)

theorem add_message_idempotent_witness:
  "msg_content (says ''user'' ''I like apples and oranges'') = Text ''I like apples and oranges''
   \<and> tokenize (strip ''I like apples and oranges'') \<noteq> []
   \<and> count_id (new_store Absent) (make_id ''s1'' 0) \<le> 1
   \<and> (\<exists>st1. add_message Writes (new_store Absent) ''s1'' (says ''user'' ''I like apples and oranges'') 0 = Inr st1
         \<and> add_message Writes st1 ''s1'' (says ''user'' ''I like apples and oranges'') 0 = Inr st1
         \<and> add_twice Writes Writes (new_store Absent) ''s1'' (says ''user'' ''I like apples and oranges'') 0 = Inr st1)
   \<and> (\<exists>st2. add_twice Writes Writes (new_store Absent) ''s1'' (says ''user'' ''I like apples and oranges'') 0 = Inr st2
         \<and> count_id st2 (make_id ''s1'' 0) = 1)"
proof -
  have c: "count_id (new_store Absent) (make_id ''s1'' 0) \<le> 1"
    by (simp add: count_id_none [OF example_fresh])
  from add_message_idempotent [where dk = Writes and dk' = Writes and st = "new_store Absent"
      and sk = "''s1''" and i = 0 and msg = "says ''user'' ''I like apples and oranges''"
      and c = "''I like apples and oranges''"]
    example_content example_indexable c
  show ?thesis by blast
qed

theorem add_message_idempotent_counterexample:
  "add_twice Writes Writes (new_store Absent) ''s1'' (says ''user'' ''  '') 2 = Inr (new_store Absent)
   \<and> count_id (new_store Absent) (make_id ''s1'' 2) = 0
   \<and> add_twice Writes Writes (new_store (Json [created ''s1'' (says ''user'' ''apples'') 2 ''apples'',
           created ''s1'' (says ''user'' ''apples'') 2 ''apples''])) ''s1'' (says ''user'' ''apples'') 2
       = Inr (new_store (Json [created ''s1'' (says ''user'' ''apples'') 2 ''apples'',
           created ''s1'' (says ''user'' ''apples'') 2 ''apples'']))
   \<and> count_id (new_store (Json [created ''s1'' (says ''user'' ''apples'') 2 ''apples'',
           created ''s1'' (says ''user'' ''apples'') 2 ''apples''])) (make_id ''s1'' 2) = 2"
  by code_simp

text \<open>
  Claim C9. When the write of the index file fails, \<open>_save_index\<close> catches the exception
  and logs it: \<open>add_message\<close> returns normally, and the document it appended is in the
  document list. No behaviour of the disk makes \<open>_save_index\<close> or \<open>add_message\<close> raise.
\<close>

theorem add_message_save_failure:
  assumes "dk \<noteq> Writes" and "msg_content msg = Text c" and "tokenize (strip c) \<noteq> []"
    and "\<not> list_ex (\<lambda>d. doc_id d = make_id sk i) (documents st)"
  shows "\<exists>st'. add_message dk st sk msg i = Inr st'
            \<and> save_index dk (st\<lparr>documents := documents st @ [created sk msg i c]\<rparr>) = Inr st'
            \<and> documents st' = documents st @ [created sk msg i c]
            \<and> logged st' = logged st @ [OSError]"
proof -
  let ?st = "st\<lparr>documents := documents st @ [created sk msg i c]\<rparr>"
  have add: "add_message dk st sk msg i = save_index dk ?st"
    using assms(2-4) by (rule add_message_append)
  obtain st' where st': "save_index dk ?st = Inr st'" "documents st' = documents ?st"
    "logged st' = logged ?st @ (if dk = Writes then [] else [OSError])"
    using save_index_Inr [of dk ?st] by blast
  with add assms(1) show ?thesis by simp
qed

lemma example_disk: "WriteFails \<noteq> Writes"
  by simp

theorem add_message_save_failure_witness:
  "WriteFails \<noteq> Writes
   \<and> msg_content (says ''user'' ''I like apples and oranges'') = Text ''I like apples and oranges''
   \<and> tokenize (strip ''I like apples and oranges'') \<noteq> []
   \<and> \<not> list_ex (\<lambda>d. doc_id d = make_id ''s1'' 0) (documents (new_store Absent))
   \<and> (\<exists>st'. add_message WriteFails (new_store Absent) ''s1''
                (says ''user'' ''I like apples and oranges'') 0 = Inr st'
         \<and> save_index WriteFails ((new_store Absent)\<lparr>documents := documents (new_store Absent) @
                [created ''s1'' (says ''user'' ''I like apples and oranges'') 0
                   ''I like apples and oranges'']\<rparr>) = Inr st'
         \<and> documents st' = documents (new_store Absent) @
                [created ''s1'' (says ''user'' ''I like apples and oranges'') 0
                   ''I like apples and oranges'']
         \<and> logged st' = logged (new_store Absent) @ [OSError])"
  by (intro conjI example_disk example_content example_indexable example_fresh
      add_message_save_failure [OF example_disk example_content example_indexable example_fresh])

subsection \<open>Reloading\<close>

lemma index_file_new_store: "index_file (new_store f) = f"
  by (cases f) (simp_all add: new_store_def load_index_def read_json_def)

lemma documents_new_store_Json: "documents (new_store (Json ds)) = ds"
  by (simp add: new_store_def load_index_def read_json_def)

lemma add_message_synced:
  assumes "add_message Writes st sk msg i = Inr st'"
    and "documents (new_store (index_file st)) = documents st"
  shows "documents (new_store (index_file st')) = documents st'"
proof (cases "\<exists>c. msg_content msg = Text c \<and> tokenize (strip c) \<noteq> []
              \<and> \<not> list_ex (\<lambda>d. doc_id d = make_id sk i) (documents st)")
  case False
  from add_message_skip [OF False] assms show ?thesis by simp
next
  case True
  then obtain c where c: "msg_content msg = Text c" "tokenize (strip c) \<noteq> []"
    "\<not> list_ex (\<lambda>d. doc_id d = make_id sk i) (documents st)" by blast
  let ?st = "st\<lparr>documents := documents st @ [created sk msg i c]\<rparr>"
  from add_message_append [OF c] assms(1) have "save_index Writes ?st = Inr st'" by simp
  with save_index_Inr [of Writes ?st]
  have "index_file st' = Json (documents st')" by auto
  then show ?thesis by (simp add: documents_new_store_Json)
qed

lemma add_messages_synced:
  assumes "list_all (\<lambda>call. fst call = Writes) calls"
    and "documents (new_store (index_file st)) = documents st"
  shows "\<exists>st'. add_messages st calls = Inr st'
           \<and> documents (new_store (index_file st')) = documents st'"
  using assms
proof (induction calls arbitrary: st)
  case Nil
  then show ?case by simp
next
  case (Cons call calls)
  obtain dk sk msg i where call: "call = (dk, sk, msg, i)" by (cases call) auto
  with Cons.prems(1) have dk: "dk = Writes" and rest: "list_all (\<lambda>call. fst call = Writes) calls"
    by simp_all
  obtain st1 where st1: "add_message Writes st sk msg i = Inr st1"
    using add_message_Inr by blast
  from Cons.IH [OF rest add_message_synced [OF st1 Cons.prems(2)]] st1
  show ?case by (simp add: call dk)
qed

lemma search_messages_documents:
  assumes "documents st = documents st'"
  shows "search_messages st sk q k = search_messages st' sk q k"
proof -
  have "scored_docs st sk qv = scored_docs st' sk qv" for qv
    using assms by (simp add: scored_docs_def session_docs_def)
  then have "top_docs st sk q k = top_docs st' sk q k"
    by (simp add: top_docs_eq)
  then show ?thesis by (simp add: search_messages_def)
qed

text \<open>
  Claim C8. After any run of \<open>add_message\<close> calls whose saves succeed, on a store
  constructed over an index file in any state, a fresh store constructed over the index
  file as the run left it holds the same document list, and every search on it returns
  what the same search returns on the original store.
\<close>

theorem persistence_round_trip:
  assumes "list_all (\<lambda>call. fst call = Writes) calls"
  shows "\<exists>st. add_messages (new_store f) calls = Inr st
           \<and> documents (new_store (index_file st)) = documents st
           \<and> search_messages (new_store (index_file st)) sk q k = search_messages st sk q k"
proof -
  have "documents (new_store (index_file (new_store f))) = documents (new_store f)"
    by (simp add: index_file_new_store)
  from add_messages_synced [OF assms this] obtain st
    where st: "add_messages (new_store f) calls = Inr st"
      "documents (new_store (index_file st)) = documents st"
    by blast
  from search_messages_documents [OF st(2)] st show ?thesis by blast
qed

lemma example_calls_write: "list_all (\<lambda>call. fst call = Writes) example_calls"
  by (simp add: example_calls_def)

theorem persistence_round_trip_witness:
  "list_all (\<lambda>call. fst call = Writes) example_calls
   \<and> (\<exists>st. add_messages (new_store Absent) example_calls = Inr st
         \<and> documents (new_store (index_file st)) = documents st
         \<and> search_messages (new_store (index_file st)) ''s_1'' ''apples'' 2
             = search_messages st ''s_1'' ''apples'' 2)
   \<and> length (documents example_store) = 6"
proof -
  have "length (documents example_store) = 6" by code_simp
  with example_calls_write persistence_round_trip [OF example_calls_write]
  show ?thesis by blast
qed

subsection \<open>Rounding\<close>

lemma pow2_powi: "pow2 e = 2 powi e"
  by (simp add: pow2_def power_int_def power_one_over inverse_eq_divide)

lemma pow2_pos: "0 < pow2 e"
  by (simp add: pow2_powi)

lemma pow2_add: "pow2 (a + b) = pow2 a * pow2 b"
  by (simp add: pow2_powi power_int_add)

lemma pow2_diff: "pow2 (a - b) = pow2 a / pow2 b"
  by (simp add: pow2_powi power_int_diff)

lemma pow2_mono: "a \<le> b \<Longrightarrow> pow2 a \<le> pow2 b"
  by (simp add: pow2_powi power_int_increasing)

lemma pow2_nat: "0 \<le> e \<Longrightarrow> pow2 e = 2 ^ nat e"
  by (simp add: pow2_def)

lemma pow2_52: "pow2 52 = 2 ^ 52"
  by (simp add: pow2_def)

lemma exponent_le:
  assumes "0 < x"
  shows "pow2 (exponent x) \<le> x"
proof -
  obtain p q where pq: "quotient_of x = (p, q)" by (cases "quotient_of x") auto
  then have q: "0 < q" and x: "x = of_int p / of_int q"
    by (simp_all add: quotient_of_denom_pos quotient_of_div)
  with assms have p: "0 < p" by (simp add: zero_less_divide_iff)
  let ?e = "bitlen p - bitlen q"
  show ?thesis
  proof (cases "pow2 ?e \<le> x")
    case True
    then show ?thesis by (simp add: exponent_def pq)
  next
    case False
    have bp: "1 \<le> bitlen p" and bq: "1 \<le> bitlen q"
      using p q by (simp_all add: bitlen_alt_def)
    have "(2::int) ^ nat (bitlen p - 1) \<le> p" using bitlen_bounds [OF p] by simp
    then have "(of_int ((2::int) ^ nat (bitlen p - 1)) :: rat) \<le> of_int p"
      by (simp only: of_int_le_iff)
    then have lo: "pow2 (bitlen p - 1) \<le> of_int p"
      using bp by (simp add: pow2_nat)
    have "q < 2 ^ nat (bitlen q)" using bitlen_bounds [OF q] by simp
    then have "(of_int q :: rat) < of_int ((2::int) ^ nat (bitlen q))"
      by (simp only: of_int_less_iff)
    then have hi: "of_int q \<le> pow2 (bitlen q)"
      using bq by (simp add: pow2_nat)
    have "pow2 (?e - 1) = pow2 (bitlen p - 1) / pow2 (bitlen q)"
      by (simp flip: pow2_diff) (simp add: algebra_simps)
    also have "\<dots> \<le> of_int p / pow2 (bitlen q)"
      using lo pow2_pos [of "bitlen q"] by (simp add: divide_right_mono)
    also have "\<dots> \<le> of_int p / of_int q"
      using hi p q by (simp add: divide_left_mono)
    finally have "pow2 (?e - 1) \<le> x" by (simp add: x)
    moreover have "exponent x = ?e - 1" using False by (simp add: exponent_def pq)
    ultimately show ?thesis by simp
  qed
qed

lemma round_half_even_err: "\<bar>of_int (round_half_even x) - x\<bar> \<le> 1 / 2"
proof -
  have "of_int \<lfloor>x\<rfloor> \<le> x" "x < of_int \<lfloor>x\<rfloor> + 1" by linarith+
  then show ?thesis by (auto simp: round_half_even_def Let_def)
qed

lemma unit_roundoff_bounds: "0 < unit_roundoff" "unit_roundoff < 1"
  by (simp_all add: unit_roundoff_def)

lemma fl_round_pos_err:
  assumes "0 < x"
  shows "\<bar>fl_round_pos x - x\<bar> \<le> x * unit_roundoff"
proof -
  let ?c = "pow2 (52 - exponent x)"
  let ?n = "of_int (round_half_even (x * ?c)) :: rat"
  have c: "0 < ?c" by (rule pow2_pos)
  have inv: "pow2 (exponent x - 52) = 1 / ?c"
    using pow2_diff [of 0 "52 - exponent x"] by (simp add: pow2_def)
  have "pow2 (exponent x) * ?c = 2 ^ 52"
    by (simp flip: pow2_add) (simp add: pow2_52)
  with exponent_le [OF assms] c have big: "2 ^ 52 \<le> x * ?c"
    by (metis mult_right_mono less_imp_le)
  have half: "1 / 2 \<le> x * ?c * unit_roundoff"
    using big by (simp add: unit_roundoff_def)
  have "fl_round_pos x - x = (?n - x * ?c) / ?c"
    using c by (simp add: fl_round_pos_def inv field_simps)
  then have "\<bar>fl_round_pos x - x\<bar> = \<bar>?n - x * ?c\<bar> / ?c"
    using c by (simp add: abs_divide)
  also have "\<dots> \<le> (x * ?c * unit_roundoff) / ?c"
    using round_half_even_err [of "x * ?c"] half c by (intro divide_right_mono) auto
  also have "\<dots> = x * unit_roundoff" using c by simp
  finally show ?thesis .
qed

lemma fl_round_err:
  assumes "0 \<le> x"
  shows "\<bar>fl_round x - x\<bar> \<le> x * unit_roundoff"
  using assms fl_round_pos_err [of x] by (cases "x = 0") (simp_all add: fl_round_def)

lemma rel_err_bounds:
  fixes a x u :: "'a :: linordered_field"
  assumes "\<bar>a - x\<bar> \<le> x * u"
  shows "(1 - u) * x \<le> a" and "a \<le> (1 + u) * x"
  using assms by (simp_all add: abs_le_iff algebra_simps)

lemma fl_round_bounds:
  assumes "0 \<le> x"
  shows "(1 - unit_roundoff) * x \<le> fl_round x" and "fl_round x \<le> (1 + unit_roundoff) * x"
  using rel_err_bounds [OF fl_round_err [OF assms]] by simp_all

lemma fl_round_nonneg:
  assumes "0 \<le> x"
  shows "0 \<le> fl_round x"
proof -
  have "0 \<le> (1 - unit_roundoff) * x" using assms unit_roundoff_bounds by simp
  with fl_round_bounds(1) [OF assms] show ?thesis by linarith
qed

lemma fl_round_positive:
  assumes "0 < x"
  shows "0 < fl_round x"
proof -
  have "0 < (1 - unit_roundoff) * x" using assms unit_roundoff_bounds by simp
  with fl_round_bounds(1) [of x] assms show ?thesis by linarith
qed

lemma isqrt_bounds:
  "0 \<le> n \<Longrightarrow> 0 \<le> isqrt n \<and> isqrt n * isqrt n \<le> n \<and> n < (isqrt n + 1) * (isqrt n + 1)"
proof (induction n rule: isqrt.induct)
  case (1 n)
  show ?case
  proof (cases "n \<le> 0")
    case True
    then have "isqrt n = 0" by (subst isqrt.simps) simp
    with True "1.prems" show ?thesis by simp
  next
    case False
    define s where "s = isqrt (n div 4)"
    define q where "q = n div 4"
    from False "1.prems" have "0 \<le> n div 4" by simp
    with "1.IH" [OF False] have s: "0 \<le> s" "s * s \<le> q" "q < (s + 1) * (s + 1)"
      by (simp_all add: s_def q_def)
    have n: "4 * q \<le> n" "n \<le> 4 * q + 3" by (simp_all add: q_def)
    have lo: "(2 * s) * (2 * s) \<le> n" using s(2) n(1) by (simp add: algebra_simps)
    have hi: "n < (2 * s + 2) * (2 * s + 2)" using s(3) n(2) by (simp add: algebra_simps)
    have eq: "isqrt n = (if (2 * s + 1) * (2 * s + 1) \<le> n then 2 * s + 1 else 2 * s)"
      using False by (subst isqrt.simps) (simp add: s_def Let_def)
    show ?thesis
    proof (cases "(2 * s + 1) * (2 * s + 1) \<le> n")
      case True
      with eq have "isqrt n = 2 * s + 1" by simp
      with True hi s(1) show ?thesis by (simp add: algebra_simps)
    next
      case False
      with eq have "isqrt n = 2 * s" by simp
      with False lo s(1) show ?thesis by (simp add: algebra_simps)
    qed
  qed
qed

lemma isqrt_floor:
  fixes y :: rat
  assumes "0 \<le> y"
  shows "0 \<le> isqrt \<lfloor>y\<rfloor>"
    and "of_int (isqrt \<lfloor>y\<rfloor>) * of_int (isqrt \<lfloor>y\<rfloor>) \<le> y"
    and "y < (of_int (isqrt \<lfloor>y\<rfloor>) + 1) * (of_int (isqrt \<lfloor>y\<rfloor>) + 1)"
proof -
  define s where "s = isqrt \<lfloor>y\<rfloor>"
  have y0: "0 \<le> \<lfloor>y\<rfloor>" using assms by (simp add: zero_le_floor)
  from isqrt_bounds [OF y0] have s: "0 \<le> s" "s * s \<le> \<lfloor>y\<rfloor>" "\<lfloor>y\<rfloor> < (s + 1) * (s + 1)"
    by (simp_all add: s_def)
  show "0 \<le> isqrt \<lfloor>y\<rfloor>" using s(1) by (simp add: s_def)
  have "(of_int (s * s) :: rat) \<le> of_int \<lfloor>y\<rfloor>" using s(2) by (simp only: of_int_le_iff)
  moreover have "(of_int \<lfloor>y\<rfloor> :: rat) \<le> y" by (rule of_int_floor_le)
  ultimately have "(of_int (s * s) :: rat) \<le> y" by (rule order_trans)
  then show "of_int (isqrt \<lfloor>y\<rfloor>) * of_int (isqrt \<lfloor>y\<rfloor>) \<le> y"
    by (simp only: of_int_mult s_def)
  have "\<lfloor>y\<rfloor> + 1 \<le> (s + 1) * (s + 1)" using s(3) by simp
  then have "(of_int (\<lfloor>y\<rfloor> + 1) :: rat) \<le> of_int ((s + 1) * (s + 1))" by (simp only: of_int_le_iff)
  then have "(of_int \<lfloor>y\<rfloor> + 1 :: rat) \<le> (of_int s + 1) * (of_int s + 1)"
    by (simp only: of_int_mult of_int_add of_int_1)
  moreover have "y < of_int \<lfloor>y\<rfloor> + 1" by linarith
  ultimately have "y < (of_int s + 1) * (of_int s + 1)" by (rule less_le_trans [rotated])
  then show "y < (of_int (isqrt \<lfloor>y\<rfloor>) + 1) * (of_int (isqrt \<lfloor>y\<rfloor>) + 1)"
    by (simp only: s_def)
qed

lemma nearest_bracket:
  fixes y t :: rat
  assumes "1 \<le> t" and "t * t \<le> y" and "y < (t + 1) * (t + 1)"
  shows "(t - 1 / 2) * (t - 1 / 2) \<le> y"
    and "y \<le> (t + 1 + 1 / 2) * (t + 1 + 1 / 2)"
proof -
  have "(t - 1 / 2) * (t - 1 / 2) \<le> t * t" using assms(1) by (simp add: algebra_simps)
  with assms(2) show "(t - 1 / 2) * (t - 1 / 2) \<le> y" by (rule order_trans [rotated])
  have "(t + 1) * (t + 1) \<le> (t + 1 + 1 / 2) * (t + 1 + 1 / 2)"
    using assms(1) by (simp add: algebra_simps)
  with assms(3) show "y \<le> (t + 1 + 1 / 2) * (t + 1 + 1 / 2)" by simp
qed

lemma scaled_big:
  assumes "0 < a"
  shows "2 ^ 104 \<le> a * pow2 (2 * (52 - exponent a div 2))"
proof -
  define e where "e = exponent a div 2"
  have "2 * e \<le> exponent a" by (simp add: e_def)
  then have "104 \<le> exponent a + 2 * (52 - e)" by simp
  then have "pow2 104 \<le> pow2 (exponent a + 2 * (52 - e))" by (rule pow2_mono)
  also have "\<dots> = pow2 (exponent a) * pow2 (2 * (52 - e))" by (rule pow2_add)
  also have "\<dots> \<le> a * pow2 (2 * (52 - e))"
    using exponent_le [OF assms] pow2_pos [of "2 * (52 - e)"] by (simp only: mult_right_mono less_imp_le)
  finally show ?thesis by (simp only: e_def) (simp add: pow2_def)
qed

lemma fl_sqrt_bracket:
  assumes "0 < a"
  shows "\<exists>m c. fl_sqrt a = of_int m / c \<and> 0 < c \<and> 0 \<le> m
           \<and> (of_int m - 1 / 2) * (of_int m - 1 / 2) \<le> a * (c * c)
           \<and> a * (c * c) \<le> (of_int m + 1 / 2) * (of_int m + 1 / 2)
           \<and> 2 ^ 104 \<le> a * (c * c)"
proof -
  define e where "e = exponent a div 2"
  define c where "c = pow2 (52 - e)"
  define y where "y = a * pow2 (2 * (52 - e))"
  define s where "s = isqrt \<lfloor>y\<rfloor>"
  define h :: rat where "h = (of_int s + 1 / 2) * (of_int s + 1 / 2)"
  define m where "m = (if y < h then s else if h < y then s + 1 else if even s then s else s + 1)"
  have c: "0 < c" by (simp add: c_def pow2_pos)
  have "pow2 (2 * (52 - e)) = pow2 ((52 - e) + (52 - e))" by simp
  then have yc: "y = a * (c * c)" by (simp only: y_def c_def pow2_add)
  have inv: "pow2 (e - 52) = 1 / c"
    using pow2_diff [of 0 "52 - e"] by (simp add: c_def pow2_def)
  from assms have pos: "\<not> a \<le> 0" by simp
  have "fl_sqrt a = of_int m * pow2 (e - 52)"
    unfolding fl_sqrt_def m_def h_def s_def y_def e_def Let_def
    using pos by (simp only: if_False)
  then have res: "fl_sqrt a = of_int m / c" by (simp add: inv)
  have big: "2 ^ 104 \<le> y" using scaled_big [OF assms] by (simp only: y_def e_def)
  then have y0: "0 \<le> y" by (rule order_trans [rotated]) simp
  note s = isqrt_floor [OF y0, folded s_def]
  have "s \<noteq> 0"
  proof
    assume "s = 0"
    with s(3) have "y < 1" by simp
    with big show False by simp
  qed
  with s(1) have "1 \<le> s" by simp
  then have s1: "(1::rat) \<le> of_int s" by simp
  note nb = nearest_bracket [OF s1 s(2,3)]
  have "(of_int m - 1 / 2) * (of_int m - 1 / 2) \<le> y \<and> y \<le> (of_int m + 1 / 2) * (of_int m + 1 / 2)"
  proof (cases "m = s")
    case True
    then have "\<not> h < y" by (auto simp: m_def split: if_splits)
    then have "y \<le> (of_int s + 1 / 2) * (of_int s + 1 / 2)" by (simp add: h_def)
    with nb(1) True show ?thesis by simp
  next
    case False
    then have ms: "m = s + 1" and "\<not> y < h" by (auto simp: m_def split: if_splits)
    then have "(of_int s + 1 / 2) * (of_int s + 1 / 2) \<le> y" by (simp add: h_def)
    moreover have "of_int m - 1 / 2 = (of_int s + 1 / 2 :: rat)"
      and "of_int m + 1 / 2 = (of_int s + 1 + 1 / 2 :: rat)" by (simp_all add: ms)
    ultimately show ?thesis using nb(2) by (simp only:)
  qed
  moreover have "0 \<le> m" using s(1) by (simp add: m_def)
  ultimately show ?thesis using res c big yc by blast
qed

lemma near_sqrt:
  fixes M Y :: real
  assumes "0 \<le> M" and "(M - 1 / 2) * (M - 1 / 2) \<le> Y" and "Y \<le> (M + 1 / 2) * (M + 1 / 2)"
  shows "\<bar>M - sqrt Y\<bar> \<le> 1 / 2"
proof -
  have "(M - 1 / 2)\<^sup>2 \<le> Y" using assms(2) by (simp add: power2_eq_square)
  then have lo: "M - 1 / 2 \<le> sqrt Y" by (rule real_le_rsqrt)
  have "Y \<le> (M + 1 / 2)\<^sup>2" using assms(3) by (simp add: power2_eq_square)
  with assms(1) have hi: "sqrt Y \<le> M + 1 / 2" by (intro real_le_lsqrt) simp_all
  from lo hi show ?thesis by linarith
qed

lemma fl_sqrt_err:
  assumes "0 < a"
  shows "\<bar>real_of_rat (fl_sqrt a) - sqrt (real_of_rat a)\<bar>
           \<le> sqrt (real_of_rat a) * real_of_rat unit_roundoff"
proof -
  from fl_sqrt_bracket [OF assms] obtain m c where mc: "fl_sqrt a = of_int m / c" "0 < c" "0 \<le> m"
    "(of_int m - 1 / 2) * (of_int m - 1 / 2) \<le> a * (c * c)"
    "a * (c * c) \<le> (of_int m + 1 / 2) * (of_int m + 1 / 2)"
    "2 ^ 104 \<le> a * (c * c)"
    by blast
  define M where "M = real_of_int m"
  define C where "C = real_of_rat c"
  define A where "A = real_of_rat a"
  define Y where "Y = A * (C * C)"
  have C: "0 < C" using mc(2) by (simp add: C_def)
  have A: "0 < A" using assms by (simp add: A_def)
  have M: "0 \<le> M" using mc(3) by (simp add: M_def)
  have "real_of_rat ((of_int m - 1 / 2) * (of_int m - 1 / 2)) \<le> real_of_rat (a * (c * c))"
    using mc(4) by (simp only: of_rat_less_eq)
  then have lo: "(M - 1 / 2) * (M - 1 / 2) \<le> Y"
    by (simp add: of_rat_mult of_rat_diff of_rat_divide M_def C_def A_def Y_def)
  have "real_of_rat (a * (c * c)) \<le> real_of_rat ((of_int m + 1 / 2) * (of_int m + 1 / 2))"
    using mc(5) by (simp only: of_rat_less_eq)
  then have hi: "Y \<le> (M + 1 / 2) * (M + 1 / 2)"
    by (simp add: of_rat_mult of_rat_add of_rat_divide M_def C_def A_def Y_def)
  have "real_of_rat (2 ^ 104) \<le> real_of_rat (a * (c * c))"
    using mc(6) by (simp only: of_rat_less_eq)
  then have "(2 ^ 52)\<^sup>2 \<le> Y"
    by (simp add: of_rat_mult of_rat_power C_def A_def Y_def)
  then have big: "2 ^ 52 \<le> sqrt Y" by (rule real_le_rsqrt)
  have sqrtY: "sqrt Y = sqrt A * C"
    using C by (simp add: Y_def real_sqrt_mult)
  have res: "real_of_rat (fl_sqrt a) = M / C"
    by (simp add: mc(1) of_rat_divide M_def C_def)
  have u: "real_of_rat unit_roundoff = 1 / 2 ^ 53"
    by (simp add: unit_roundoff_def of_rat_divide of_rat_power)
  have "M / C - sqrt A = (M - sqrt Y) / C" using C by (simp add: sqrtY field_simps)
  then have "\<bar>M / C - sqrt A\<bar> = \<bar>M - sqrt Y\<bar> / C" using C by (simp add: abs_divide)
  also have "\<dots> \<le> (1 / 2) / C"
    using near_sqrt [OF M lo hi] C by (intro divide_right_mono) simp_all
  also have "\<dots> \<le> (sqrt Y / 2 ^ 53) / C"
    using big C by (intro divide_right_mono) simp_all
  also have "\<dots> = sqrt A * (1 / 2 ^ 53)" using C by (simp add: sqrtY)
  finally show ?thesis by (simp only: res u A_def)
qed

lemma fl_sqrt_bounds:
  assumes "0 < a"
  shows "(1 - real_of_rat unit_roundoff) * sqrt (real_of_rat a) \<le> real_of_rat (fl_sqrt a)"
    and "real_of_rat (fl_sqrt a) \<le> (1 + real_of_rat unit_roundoff) * sqrt (real_of_rat a)"
  using rel_err_bounds [OF fl_sqrt_err [OF assms]] by simp_all

lemma fl_sqrt_positive:
  assumes "0 < a"
  shows "0 < fl_sqrt a"
proof -
  have "0 < (1 - real_of_rat unit_roundoff) * sqrt (real_of_rat a)"
    using assms unit_roundoff_bounds by (simp add: of_rat_less_1_iff)
  with fl_sqrt_bounds(1) [OF assms] have "0 < real_of_rat (fl_sqrt a)" by linarith
  then show ?thesis by simp
qed

lemma fl_sqrt_zero_iff: "0 \<le> a \<Longrightarrow> fl_sqrt a = 0 \<longleftrightarrow> a = 0"
  using fl_sqrt_positive [of a] by (cases "a = 0") (auto simp: fl_sqrt_def)

lemma fl_round_zero_iff: "0 \<le> x \<Longrightarrow> fl_round x = 0 \<longleftrightarrow> x = 0"
  using fl_round_positive [of x] by (cases "x = 0") (auto simp: fl_round_def)

subsection \<open>Dot products and norms\<close>

lemma quadratic_sum:
  fixes f g :: "'a \<Rightarrow> real"
  shows "(\<Sum>x\<leftarrow>xs. (f x * t - g x)\<^sup>2)
           = t\<^sup>2 * (\<Sum>x\<leftarrow>xs. (f x)\<^sup>2) - 2 * t * (\<Sum>x\<leftarrow>xs. f x * g x) + (\<Sum>x\<leftarrow>xs. (g x)\<^sup>2)"
  by (induction xs) (simp_all add: power2_eq_square algebra_simps)

lemma dot_squared_le:
  fixes f g :: "'a \<Rightarrow> real"
  shows "(\<Sum>x\<leftarrow>xs. f x * g x)\<^sup>2 \<le> (\<Sum>x\<leftarrow>xs. (f x)\<^sup>2) * (\<Sum>x\<leftarrow>xs. (g x)\<^sup>2)"
proof -
  define S1 where "S1 = (\<Sum>x\<leftarrow>xs. (f x)\<^sup>2)"
  define S2 where "S2 = (\<Sum>x\<leftarrow>xs. (g x)\<^sup>2)"
  define D where "D = (\<Sum>x\<leftarrow>xs. f x * g x)"
  have S1: "0 \<le> S1" unfolding S1_def by (rule sum_list_nonneg) auto
  have S2: "0 \<le> S2" unfolding S2_def by (rule sum_list_nonneg) auto
  have q: "0 \<le> t\<^sup>2 * S1 - 2 * t * D + S2" for t
  proof -
    have "0 \<le> (\<Sum>x\<leftarrow>xs. (f x * t - g x)\<^sup>2)" by (rule sum_list_nonneg) auto
    then show ?thesis by (simp only: quadratic_sum S1_def S2_def D_def)
  qed
  show ?thesis
  proof (cases "S1 = 0")
    case True
    have "D = 0"
    proof (rule ccontr)
      assume "D \<noteq> 0"
      with q [of "(S2 + 1) / (2 * D)"] True show False by simp
    qed
    with True show ?thesis by (simp add: S1_def [symmetric] D_def [symmetric])
  next
    case False
    with S1 have pos: "0 < S1" by simp
    from q [of "D / S1"] have "0 \<le> (D / S1)\<^sup>2 * S1 - 2 * (D / S1) * D + S2" .
    also have "(D / S1)\<^sup>2 * S1 - 2 * (D / S1) * D + S2 = S2 - D\<^sup>2 / S1"
      using pos by (simp add: power2_eq_square field_simps)
    finally have "D\<^sup>2 / S1 \<le> S2" by simp
    then have "D\<^sup>2 \<le> S2 * S1" using pos by (simp add: pos_divide_le_eq)
    then show ?thesis by (simp add: S1_def S2_def D_def mult.commute)
  qed
qed

lemma dict_get_Cons:
  "dict_get ((k, v) # d) w dflt = (if w = k then v else dict_get d w dflt)"
  by (simp add: dict_get_def)

lemma dict_get_Nil: "dict_get [] w dflt = dflt"
  by (simp add: dict_get_def)

lemma sum_squares_keys_le:
  fixes vec :: tf_vector
  assumes "finite K"
  shows "(\<Sum>w\<in>K. (dict_get vec w 0)\<^sup>2) \<le> (\<Sum>v\<leftarrow>map snd vec. v\<^sup>2)"
  using assms
proof (induction vec arbitrary: K)
  case Nil
  show ?case by (simp add: dict_get_Nil)
next
  case (Cons kv vec)
  obtain k v where kv: "kv = (k, v)" by (cases kv) auto
  have rest: "(\<Sum>w\<in>K - {k}. (dict_get ((k, v) # vec) w 0)\<^sup>2) = (\<Sum>w\<in>K - {k}. (dict_get vec w 0)\<^sup>2)"
    by (rule sum.cong) (simp_all add: dict_get_Cons)
  have ih: "(\<Sum>w\<in>K - {k}. (dict_get vec w 0)\<^sup>2) \<le> (\<Sum>v\<leftarrow>map snd vec. v\<^sup>2)"
    using Cons.prems by (intro Cons.IH) simp
  show ?case
  proof (cases "k \<in> K")
    case True
    have "(\<Sum>w\<in>K. (dict_get ((k, v) # vec) w 0)\<^sup>2)
        = (dict_get ((k, v) # vec) k 0)\<^sup>2 + (\<Sum>w\<in>K - {k}. (dict_get ((k, v) # vec) w 0)\<^sup>2)"
      using Cons.prems True by (rule sum.remove)
    with rest ih show ?thesis by (simp add: kv dict_get_Cons)
  next
    case False
    then have "K - {k} = K" by auto
    with rest ih have "(\<Sum>w\<in>K. (dict_get ((k, v) # vec) w 0)\<^sup>2) \<le> (\<Sum>v\<leftarrow>map snd vec. v\<^sup>2)"
      by simp
    moreover have "(\<Sum>v\<leftarrow>map snd vec. v\<^sup>2) \<le> (\<Sum>v\<leftarrow>map snd ((k, v) # vec). v\<^sup>2)"
      by simp
    ultimately show ?thesis unfolding kv by (rule order_trans)
  qed
qed

subsection \<open>The similarity up to rounding\<close>

lemma cosine_similarity_unfold:
  "cosine_similarity vec1 vec2 =
     (if fl_sqrt (fl_of_int (squared_norm vec1)) = 0 \<or> fl_sqrt (fl_of_int (squared_norm vec2)) = 0
      then 0
      else fl_div (fl_of_int (common_dot vec1 vec2))
             (fl_mul (fl_sqrt (fl_of_int (squared_norm vec1))) (fl_sqrt (fl_of_int (squared_norm vec2)))))"
proof -
  let ?I = "remdups (filter (\<lambda>w. w \<in> set (map fst vec2)) (map fst vec1))"
  have "set ?I = fst ` set vec1 \<inter> fst ` set vec2" by auto
  then have "(\<Sum>w\<leftarrow>?I. dict_get vec1 w 0 * dict_get vec2 w 0) = common_dot vec1 vec2"
    unfolding common_dot_def by (subst sum_list_distinct_conv_sum_set) simp_all
  then show ?thesis
    by (simp only: cosine_similarity_def Let_def squared_norm_def)
qed

lemma squared_norm_nonneg: "0 \<le> squared_norm vec"
  unfolding squared_norm_def by (rule sum_list_nonneg) auto

lemma common_dot_nonneg:
  assumes "\<forall>v\<in>set (map snd vec1). 0 \<le> v" and "\<forall>v\<in>set (map snd vec2). 0 \<le> v"
  shows "0 \<le> common_dot vec1 vec2"
proof -
  have "0 \<le> dict_get vec w 0" if "\<forall>v\<in>set (map snd vec). 0 \<le> v" for vec :: tf_vector and w
  proof (cases "map_of vec w")
    case None
    then show ?thesis by (simp add: dict_get_def)
  next
    case (Some v)
    then have "(w, v) \<in> set vec" by (rule map_of_SomeD)
    then have "v \<in> set (map snd vec)" by force
    with that have "0 \<le> v" by blast
    with Some show ?thesis by (simp add: dict_get_def)
  qed
  with assms show ?thesis
    unfolding common_dot_def by (intro sum_nonneg mult_nonneg_nonneg) blast+
qed

lemma common_dot_le:
  "(real_of_int (common_dot vec1 vec2))\<^sup>2
     \<le> real_of_int (squared_norm vec1) * real_of_int (squared_norm vec2)"
proof -
  let ?K = "fst ` set vec1 \<inter> fst ` set vec2"
  obtain ks where ks: "set ks = ?K" "distinct ks"
    using finite_distinct_list [of ?K] by auto
  let ?f = "\<lambda>w. real_of_int (dict_get vec1 w 0)"
  let ?g = "\<lambda>w. real_of_int (dict_get vec2 w 0)"
  have fin: "finite ?K" by simp
  have d: "real_of_int (common_dot vec1 vec2) = (\<Sum>w\<leftarrow>ks. ?f w * ?g w)"
    using ks by (simp add: common_dot_def sum_list_distinct_conv_sum_set)
  have "(\<Sum>w\<leftarrow>ks. (?f w)\<^sup>2) = real_of_int (\<Sum>w\<in>?K. (dict_get vec1 w 0)\<^sup>2)"
    using ks by (simp add: sum_list_distinct_conv_sum_set)
  also have "\<dots> \<le> real_of_int (squared_norm vec1)"
    unfolding squared_norm_def using sum_squares_keys_le [OF fin, of vec1] by (simp only: of_int_le_iff)
  finally have f: "(\<Sum>w\<leftarrow>ks. (?f w)\<^sup>2) \<le> real_of_int (squared_norm vec1)" .
  have "(\<Sum>w\<leftarrow>ks. (?g w)\<^sup>2) = real_of_int (\<Sum>w\<in>?K. (dict_get vec2 w 0)\<^sup>2)"
    using ks by (simp add: sum_list_distinct_conv_sum_set)
  also have "\<dots> \<le> real_of_int (squared_norm vec2)"
    unfolding squared_norm_def using sum_squares_keys_le [OF fin, of vec2] by (simp only: of_int_le_iff)
  finally have g: "(\<Sum>w\<leftarrow>ks. (?g w)\<^sup>2) \<le> real_of_int (squared_norm vec2)" .
  have "0 \<le> (\<Sum>w\<leftarrow>ks. (?f w)\<^sup>2)" "0 \<le> (\<Sum>w\<leftarrow>ks. (?g w)\<^sup>2)"
    by (rule sum_list_nonneg, auto)+
  with f g have "(\<Sum>w\<leftarrow>ks. (?f w)\<^sup>2) * (\<Sum>w\<leftarrow>ks. (?g w)\<^sup>2)
      \<le> real_of_int (squared_norm vec1) * real_of_int (squared_norm vec2)"
    by (intro mult_mono) simp_all
  with dot_squared_le [of ?f ?g ks] show ?thesis by (simp only: d)
qed

lemma fl_round_bounds_real:
  assumes "0 \<le> x"
  shows "(1 - real_of_rat unit_roundoff) * real_of_rat x \<le> real_of_rat (fl_round x)"
    and "real_of_rat (fl_round x) \<le> (1 + real_of_rat unit_roundoff) * real_of_rat x"
proof -
  have "real_of_rat ((1 - unit_roundoff) * x) \<le> real_of_rat (fl_round x)"
    using fl_round_bounds(1) [OF assms] by (simp only: of_rat_less_eq)
  then show "(1 - real_of_rat unit_roundoff) * real_of_rat x \<le> real_of_rat (fl_round x)"
    by (simp add: of_rat_mult of_rat_diff)
  have "real_of_rat (fl_round x) \<le> real_of_rat ((1 + unit_roundoff) * x)"
    using fl_round_bounds(2) [OF assms] by (simp only: of_rat_less_eq)
  then show "real_of_rat (fl_round x) \<le> (1 + real_of_rat unit_roundoff) * real_of_rat x"
    by (simp add: of_rat_mult of_rat_add)
qed

lemma unit_roundoff_real: "0 < real_of_rat unit_roundoff" "real_of_rat unit_roundoff < 1"
  using unit_roundoff_bounds by (simp_all add: of_rat_less_1_iff)

lemma norm_bounds:
  fixes s :: int
  assumes "0 < s"
  defines "u \<equiv> real_of_rat unit_roundoff"
  defines "m \<equiv> real_of_rat (fl_sqrt (fl_of_int s))"
  shows "(1 - u) * (sqrt (1 - u) * sqrt (real_of_int s)) \<le> m"
    and "m \<le> (1 + u) * (sqrt (1 + u) * sqrt (real_of_int s))"
    and "0 < fl_sqrt (fl_of_int s)"
proof -
  have u: "0 < u" "u < 1" using unit_roundoff_real by (simp_all add: u_def)
  have s: "(0::rat) \<le> of_int s" "(0::rat) < of_int s" using assms(1) by simp_all
  have a: "0 < fl_of_int s" unfolding fl_of_int_def using s(2) by (rule fl_round_positive)
  have lo: "(1 - u) * real_of_int s \<le> real_of_rat (fl_of_int s)"
    and hi: "real_of_rat (fl_of_int s) \<le> (1 + u) * real_of_int s"
    using fl_round_bounds_real [OF s(1)] by (simp_all add: fl_of_int_def u_def)
  have "sqrt ((1 - u) * real_of_int s) \<le> sqrt (real_of_rat (fl_of_int s))"
    using lo by simp
  then have rlo: "sqrt (1 - u) * sqrt (real_of_int s) \<le> sqrt (real_of_rat (fl_of_int s))"
    by (simp add: real_sqrt_mult)
  have "sqrt (real_of_rat (fl_of_int s)) \<le> sqrt ((1 + u) * real_of_int s)"
    using hi by simp
  then have rhi: "sqrt (real_of_rat (fl_of_int s)) \<le> sqrt (1 + u) * sqrt (real_of_int s)"
    by (simp add: real_sqrt_mult)
  have "(1 - u) * (sqrt (1 - u) * sqrt (real_of_int s)) \<le> (1 - u) * sqrt (real_of_rat (fl_of_int s))"
    using rlo u by (intro mult_left_mono) simp_all
  also have "\<dots> \<le> m" using fl_sqrt_bounds(1) [OF a] by (simp add: m_def u_def)
  finally show "(1 - u) * (sqrt (1 - u) * sqrt (real_of_int s)) \<le> m" .
  have "m \<le> (1 + u) * sqrt (real_of_rat (fl_of_int s))"
    using fl_sqrt_bounds(2) [OF a] by (simp add: m_def u_def)
  also have "\<dots> \<le> (1 + u) * (sqrt (1 + u) * sqrt (real_of_int s))"
    using rhi u by (intro mult_left_mono) simp_all
  finally show "m \<le> (1 + u) * (sqrt (1 + u) * sqrt (real_of_int s))" .
  show "0 < fl_sqrt (fl_of_int s)" using a by (rule fl_sqrt_positive)
qed

lemma quotient_chain:
  fixes u T d DD P C :: real
  assumes u: "0 < u" "u < 1" and T: "0 < T" and d: "0 \<le> d"
    and DD: "(1 - u) * d \<le> DD" "DD \<le> (1 + u) * d"
    and P: "(1 - u) ^ 4 * T \<le> P" "P \<le> (1 + u) ^ 4 * T"
    and C: "(1 - u) * (DD / P) \<le> C" "C \<le> (1 + u) * (DD / P)"
  shows "(1 - u)\<^sup>2 / (1 + u) ^ 4 * (d / T) \<le> C" and "C \<le> (1 + u)\<^sup>2 / (1 - u) ^ 4 * (d / T)"
proof -
  have low: "0 < (1 - u) ^ 4 * T" using u T by simp
  with P(1) have Ppos: "0 < P" by linarith
  have "0 \<le> (1 - u) * d" using u d by simp
  with DD(1) have DDpos: "0 \<le> DD" by linarith
  have "DD / P \<le> ((1 + u) * d) / ((1 - u) ^ 4 * T)"
    using DD(2) P(1) low u d by (intro frac_le) simp_all
  then have "(1 + u) * (DD / P) \<le> (1 + u) * (((1 + u) * d) / ((1 - u) ^ 4 * T))"
    using u by (intro mult_left_mono) simp_all
  also have "\<dots> = (1 + u)\<^sup>2 / (1 - u) ^ 4 * (d / T)" by (simp add: power2_eq_square)
  finally show "C \<le> (1 + u)\<^sup>2 / (1 - u) ^ 4 * (d / T)" using C(2) by linarith
  have "((1 - u) * d) / ((1 + u) ^ 4 * T) \<le> DD / P"
    using DD(1) P(2) Ppos DDpos by (intro frac_le) simp_all
  then have "(1 - u) * (((1 - u) * d) / ((1 + u) ^ 4 * T)) \<le> (1 - u) * (DD / P)"
    using u by (intro mult_left_mono) simp_all
  moreover have "(1 - u) * (((1 - u) * d) / ((1 + u) ^ 4 * T)) = (1 - u)\<^sup>2 / (1 + u) ^ 4 * (d / T)"
    by (simp add: power2_eq_square)
  ultimately show "(1 - u)\<^sup>2 / (1 + u) ^ 4 * (d / T) \<le> C" using C(1) by linarith
qed

lemma norm_zero_iff: "fl_sqrt (fl_of_int (squared_norm vec)) = 0 \<longleftrightarrow> squared_norm vec = 0"
proof -
  have "(0::rat) \<le> of_int (squared_norm vec)" using squared_norm_nonneg [of vec] by simp
  then have "fl_of_int (squared_norm vec) = 0 \<longleftrightarrow> squared_norm vec = 0"
    unfolding fl_of_int_def by (simp add: fl_round_zero_iff)
  moreover have "0 \<le> fl_of_int (squared_norm vec)"
    unfolding fl_of_int_def using squared_norm_nonneg [of vec] by (intro fl_round_nonneg) simp
  ultimately show ?thesis by (simp add: fl_sqrt_zero_iff)
qed

lemma rounding_margin:
  "(1 + real_of_rat unit_roundoff)\<^sup>2 / (1 - real_of_rat unit_roundoff) ^ 4 \<le> 1 + 1 / 2 ^ 50"
proof -
  have u: "real_of_rat unit_roundoff = 1 / 2 ^ 53"
    by (simp add: unit_roundoff_def of_rat_divide of_rat_power)
  have "(1 + 1 / 2 ^ 53)\<^sup>2 / (1 - 1 / 2 ^ 53) ^ 4 \<le> (1 + 1 / 2 ^ 50 :: real)"
    by (simp add: field_simps)
  then show ?thesis by (simp only: u)
qed

lemma cosine_similarity_close:
  assumes "\<forall>v\<in>set (map snd vec1). 0 \<le> v" and "\<forall>v\<in>set (map snd vec2). 0 \<le> v"
    and "squared_norm vec1 \<noteq> 0" and "squared_norm vec2 \<noteq> 0"
  defines "u \<equiv> real_of_rat unit_roundoff"
  defines "E \<equiv> real_of_int (common_dot vec1 vec2)
                 / (sqrt (real_of_int (squared_norm vec1)) * sqrt (real_of_int (squared_norm vec2)))"
  shows "(1 - u)\<^sup>2 / (1 + u) ^ 4 * E \<le> real_of_rat (cosine_similarity vec1 vec2)"
    and "real_of_rat (cosine_similarity vec1 vec2) \<le> (1 + u)\<^sup>2 / (1 - u) ^ 4 * E"
    and "0 \<le> E" and "E \<le> 1"
proof -
  define s1 where "s1 = squared_norm vec1"
  define s2 where "s2 = squared_norm vec2"
  define d where "d = common_dot vec1 vec2"
  define m1 where "m1 = fl_sqrt (fl_of_int s1)"
  define m2 where "m2 = fl_sqrt (fl_of_int s2)"
  define T where "T = sqrt (real_of_int s1) * sqrt (real_of_int s2)"
  have u: "0 < u" "u < 1" using unit_roundoff_real by (simp_all add: u_def)
  have s1: "0 < s1" using assms(3) squared_norm_nonneg [of vec1] by (simp add: s1_def)
  have s2: "0 < s2" using assms(4) squared_norm_nonneg [of vec2] by (simp add: s2_def)
  have d: "0 \<le> d" unfolding d_def using assms(1,2) by (rule common_dot_nonneg)
  have T: "0 < T" using s1 s2 by (simp add: T_def)
  note n1 = norm_bounds [OF s1, folded u_def m1_def]
  note n2 = norm_bounds [OF s2, folded u_def m2_def]
  have m: "0 < m1" "0 < m2" using n1(3) n2(3) .
  have M: "0 < real_of_rat m1" "0 < real_of_rat m2" using m by simp_all
  have cos: "cosine_similarity vec1 vec2 = fl_round (fl_round (of_int d) / fl_round (m1 * m2))"
    using m unfolding cosine_similarity_unfold
    by (simp add: s1_def s2_def d_def m1_def m2_def fl_div_def fl_mul_def fl_of_int_def)
  have su: "sqrt (1 - u) * sqrt (1 - u) = 1 - u" "sqrt (1 + u) * sqrt (1 + u) = 1 + u"
    using u by simp_all
  \<comment> \<open>the product of the norms\<close>
  have "((1 - u) * (sqrt (1 - u) * sqrt (real_of_int s1))) * ((1 - u) * (sqrt (1 - u) * sqrt (real_of_int s2)))
      \<le> real_of_rat m1 * real_of_rat m2"
    using n1(1) n2(1) M u s1 s2 by (intro mult_mono) simp_all
  moreover have "((1 - u) * (sqrt (1 - u) * sqrt (real_of_int s1))) * ((1 - u) * (sqrt (1 - u) * sqrt (real_of_int s2)))
      = (1 - u) * (1 - u) * (sqrt (1 - u) * sqrt (1 - u)) * T"
    by (simp add: T_def)
  ultimately have mlo: "(1 - u) ^ 3 * T \<le> real_of_rat m1 * real_of_rat m2"
    by (simp only: su) (simp add: power3_eq_cube)
  have "real_of_rat m1 * real_of_rat m2
      \<le> ((1 + u) * (sqrt (1 + u) * sqrt (real_of_int s1))) * ((1 + u) * (sqrt (1 + u) * sqrt (real_of_int s2)))"
    using n1(2) n2(2) M u s1 s2 by (intro mult_mono) simp_all
  moreover have "((1 + u) * (sqrt (1 + u) * sqrt (real_of_int s1))) * ((1 + u) * (sqrt (1 + u) * sqrt (real_of_int s2)))
      = (1 + u) * (1 + u) * (sqrt (1 + u) * sqrt (1 + u)) * T"
    by (simp add: T_def)
  ultimately have mhi: "real_of_rat m1 * real_of_rat m2 \<le> (1 + u) ^ 3 * T"
    by (simp only: su) (simp add: power3_eq_cube)
  have mm: "0 \<le> m1 * m2" using m by simp
  define P where "P = real_of_rat (fl_round (m1 * m2))"
  have "(1 - u) * ((1 - u) ^ 3 * T) \<le> (1 - u) * (real_of_rat m1 * real_of_rat m2)"
    using mlo u by (intro mult_left_mono) simp_all
  also have "\<dots> \<le> P"
    using fl_round_bounds_real(1) [OF mm] by (simp add: P_def u_def of_rat_mult)
  finally have Plo: "(1 - u) ^ 4 * T \<le> P" by (simp add: power4_eq_xxxx power3_eq_cube mult.assoc)
  have "P \<le> (1 + u) * (real_of_rat m1 * real_of_rat m2)"
    using fl_round_bounds_real(2) [OF mm] by (simp add: P_def u_def of_rat_mult)
  also have "\<dots> \<le> (1 + u) * ((1 + u) ^ 3 * T)"
    using mhi u by (intro mult_left_mono) simp_all
  finally have Phi: "P \<le> (1 + u) ^ 4 * T" by (simp add: power4_eq_xxxx power3_eq_cube mult.assoc)
  have Ppos: "0 < fl_round (m1 * m2)" using m by (intro fl_round_positive) simp
  \<comment> \<open>the dot product\<close>
  define DD where "DD = real_of_rat (fl_round (of_int d))"
  have d0: "(0::rat) \<le> of_int d" using d by simp
  have DDlo: "(1 - u) * real_of_int d \<le> DD" and DDhi: "DD \<le> (1 + u) * real_of_int d"
    using fl_round_bounds_real [OF d0] by (simp_all add: DD_def u_def)
  \<comment> \<open>the quotient\<close>
  have q: "0 \<le> fl_round (of_int d) / fl_round (m1 * m2)"
    using fl_round_nonneg [OF d0] Ppos by simp
  have Clo: "(1 - u) * (DD / P) \<le> real_of_rat (cosine_similarity vec1 vec2)"
    and Chi: "real_of_rat (cosine_similarity vec1 vec2) \<le> (1 + u) * (DD / P)"
    using fl_round_bounds_real [OF q] by (simp_all add: cos DD_def P_def u_def of_rat_divide)
  have dr: "0 \<le> real_of_int d" using d by simp
  note chain = quotient_chain [OF u T dr DDlo DDhi Plo Phi Clo Chi]
  have E: "E = real_of_int d / T" by (simp add: E_def d_def T_def s1_def s2_def)
  show "(1 - u)\<^sup>2 / (1 + u) ^ 4 * E \<le> real_of_rat (cosine_similarity vec1 vec2)"
    using chain(1) by (simp only: E)
  show "real_of_rat (cosine_similarity vec1 vec2) \<le> (1 + u)\<^sup>2 / (1 - u) ^ 4 * E"
    using chain(2) by (simp only: E)
  show "0 \<le> E" using dr T by (simp add: E)
  have "(real_of_int d)\<^sup>2 \<le> real_of_int s1 * real_of_int s2"
    unfolding d_def s1_def s2_def by (rule common_dot_le)
  then have "real_of_int d \<le> sqrt (real_of_int s1 * real_of_int s2)" by (rule real_le_rsqrt)
  then have "real_of_int d \<le> T" by (simp add: T_def real_sqrt_mult)
  then show "E \<le> 1" using T by (simp add: E)
qed

lemma cosine_similarity_zero:
  "squared_norm vec1 = 0 \<or> squared_norm vec2 = 0 \<Longrightarrow> cosine_similarity vec1 vec2 = 0"
  unfolding cosine_similarity_unfold by (auto simp: norm_zero_iff)

lemma cosine_similarity_formula:
  "squared_norm vec1 \<noteq> 0 \<Longrightarrow> squared_norm vec2 \<noteq> 0 \<Longrightarrow>
     cosine_similarity vec1 vec2
       = fl_div (fl_of_int (common_dot vec1 vec2))
           (fl_mul (fl_sqrt (fl_of_int (squared_norm vec1))) (fl_sqrt (fl_of_int (squared_norm vec2))))"
  unfolding cosine_similarity_unfold by (simp add: norm_zero_iff)

text \<open>
  Claim C3, as amended. For term-frequency vectors with non-negative counts whose sums of
  squared counts are below \<open>2 ^ 1000\<close>, the similarity is at least 0 and at most
  \<open>1 + 2 ^ -50\<close>: rounding can carry it above 1. It is exactly 0 whenever either vector
  has zero magnitude, an empty vector included. Otherwise it is the float quotient of the
  sum, over the terms common to both vectors, of the products of their counts, by the float
  product of the two float norms, and it differs from the exact quotient of that sum by
  the product of the Euclidean norms by a relative error of a few units of rounding.
\<close>

theorem cosine_similarity_rounded:
  assumes nonneg: "list_all (\<lambda>v. 0 \<le> v) (map snd vec1)" "list_all (\<lambda>v. 0 \<le> v) (map snd vec2)"
    and in_range: "squared_norm vec1 < 2 ^ 1000" "squared_norm vec2 < 2 ^ 1000"
  shows "0 \<le> cosine_similarity vec1 vec2
     \<and> cosine_similarity vec1 vec2 \<le> 1 + 1 / 2 ^ 50
     \<and> (squared_norm vec1 = 0 \<or> squared_norm vec2 = 0 \<longrightarrow> cosine_similarity vec1 vec2 = 0)
     \<and> cosine_similarity [] vec2 = 0 \<and> cosine_similarity vec1 [] = 0
     \<and> (squared_norm vec1 \<noteq> 0 \<and> squared_norm vec2 \<noteq> 0 \<longrightarrow>
          cosine_similarity vec1 vec2
            = fl_div (fl_of_int (common_dot vec1 vec2))
                (fl_mul (fl_sqrt (fl_of_int (squared_norm vec1))) (fl_sqrt (fl_of_int (squared_norm vec2))))
          \<and> (1 - real_of_rat unit_roundoff)\<^sup>2 / (1 + real_of_rat unit_roundoff) ^ 4
               * (real_of_int (common_dot vec1 vec2)
                   / (sqrt (real_of_int (squared_norm vec1)) * sqrt (real_of_int (squared_norm vec2))))
              \<le> real_of_rat (cosine_similarity vec1 vec2)
          \<and> real_of_rat (cosine_similarity vec1 vec2)
              \<le> (1 + real_of_rat unit_roundoff)\<^sup>2 / (1 - real_of_rat unit_roundoff) ^ 4
               * (real_of_int (common_dot vec1 vec2)
                   / (sqrt (real_of_int (squared_norm vec1)) * sqrt (real_of_int (squared_norm vec2)))))"
proof -
  let ?c = "cosine_similarity vec1 vec2"
  let ?u = "real_of_rat unit_roundoff"
  let ?E = "real_of_int (common_dot vec1 vec2)
              / (sqrt (real_of_int (squared_norm vec1)) * sqrt (real_of_int (squared_norm vec2)))"
  from nonneg have nn: "\<forall>v\<in>set (map snd vec1). 0 \<le> v" "\<forall>v\<in>set (map snd vec2). 0 \<le> v"
    by (simp_all only: list_all_iff)
  have zero: "squared_norm vec1 = 0 \<or> squared_norm vec2 = 0 \<longrightarrow> ?c = 0"
    using cosine_similarity_zero by blast
  have empty: "cosine_similarity [] vec2 = 0" "cosine_similarity vec1 [] = 0"
    by (simp_all add: cosine_similarity_zero squared_norm_def)
  have "0 < 1 + ?u" "0 < 1 - ?u" using unit_roundoff_real by linarith+
  then have margin: "0 < (1 + ?u)\<^sup>2 / (1 - ?u) ^ 4" "0 \<le> (1 - ?u)\<^sup>2 / (1 + ?u) ^ 4"
    by (simp_all only: zero_less_divide_iff zero_le_divide_iff zero_less_power zero_le_power2
        less_imp_le simp_thms)
  have range: "0 \<le> ?c \<and> ?c \<le> 1 + 1 / 2 ^ 50"
  proof (cases "squared_norm vec1 = 0 \<or> squared_norm vec2 = 0")
    case True
    with zero show ?thesis by simp
  next
    case False
    then have nz: "squared_norm vec1 \<noteq> 0" "squared_norm vec2 \<noteq> 0" by simp_all
    note close = cosine_similarity_close [OF nn nz]
    have "0 \<le> (1 - ?u)\<^sup>2 / (1 + ?u) ^ 4 * ?E"
      using margin(2) close(3) by (rule mult_nonneg_nonneg)
    with close(1) have "0 \<le> real_of_rat ?c" by linarith
    then have lo: "0 \<le> ?c" by simp
    have "(1 + ?u)\<^sup>2 / (1 - ?u) ^ 4 * ?E \<le> (1 + ?u)\<^sup>2 / (1 - ?u) ^ 4 * 1"
      using margin(1) close(4) by (intro mult_left_mono) simp_all
    with close(2) rounding_margin have "real_of_rat ?c \<le> 1 + 1 / 2 ^ 50" by linarith
    also have "(1 + 1 / 2 ^ 50 :: real) = real_of_rat (1 + 1 / 2 ^ 50)"
      by (simp add: of_rat_add of_rat_divide of_rat_power)
    finally have "?c \<le> 1 + 1 / 2 ^ 50" by (simp only: of_rat_less_eq)
    with lo show ?thesis by simp
  qed
  have close: "squared_norm vec1 \<noteq> 0 \<and> squared_norm vec2 \<noteq> 0 \<longrightarrow>
      ?c = fl_div (fl_of_int (common_dot vec1 vec2))
                (fl_mul (fl_sqrt (fl_of_int (squared_norm vec1))) (fl_sqrt (fl_of_int (squared_norm vec2))))
      \<and> (1 - ?u)\<^sup>2 / (1 + ?u) ^ 4 * ?E \<le> real_of_rat ?c
      \<and> real_of_rat ?c \<le> (1 + ?u)\<^sup>2 / (1 - ?u) ^ 4 * ?E"
    using cosine_similarity_formula [of vec1 vec2] cosine_similarity_close(1,2) [OF nn] by blast
  from range zero empty close show ?thesis by blast
qed

theorem cosine_similarity_rounded_counterexample:
  "tokenize ''red green blue'' = [(''red'', 1), (''green'', 1), (''blue'', 1)]
   \<and> cosine_similarity (tokenize ''red green blue'') (tokenize ''red green blue'')
       = 4503599627370497 / 4503599627370496
   \<and> \<not> cosine_similarity (tokenize ''red green blue'') (tokenize ''red green blue'') \<le> 1"
  by code_simp

lemma example_counts:
  "list_all (\<lambda>v. 0 \<le> v) (map snd (tokenize ''apples apples pears''))"
  "list_all (\<lambda>v. 0 \<le> v) (map snd (tokenize ''apples''))"
  by code_simp+

lemma example_norms:
  "squared_norm (tokenize ''apples apples pears'') = 5"
  "squared_norm (tokenize ''apples'') = 1"
  by code_simp+

lemma example_in_range:
  "squared_norm (tokenize ''apples apples pears'') < 2 ^ 1000"
  "squared_norm (tokenize ''apples'') < 2 ^ 1000"
  by (simp_all add: example_norms)

theorem cosine_similarity_rounded_witness:
  "list_all (\<lambda>v. 0 \<le> v) (map snd (tokenize ''apples apples pears''))
   \<and> list_all (\<lambda>v. 0 \<le> v) (map snd (tokenize ''apples''))
   \<and> squared_norm (tokenize ''apples apples pears'') < 2 ^ 1000
   \<and> squared_norm (tokenize ''apples'') < 2 ^ 1000
   \<and> squared_norm (tokenize ''apples apples pears'') = 5
   \<and> squared_norm (tokenize ''apples'') = 1
   \<and> 0 \<le> cosine_similarity (tokenize ''apples apples pears'') (tokenize ''apples'')
   \<and> cosine_similarity (tokenize ''apples apples pears'') (tokenize ''apples'') \<le> 1 + 1 / 2 ^ 50
   \<and> cosine_similarity (tokenize ''apples apples pears'') (tokenize ''apples'')
       = fl_div (fl_of_int (common_dot (tokenize ''apples apples pears'') (tokenize ''apples'')))
           (fl_mul (fl_sqrt (fl_of_int 5)) (fl_sqrt (fl_of_int 1)))
   \<and> cosine_similarity [] (tokenize ''apples'') = 0"
  using cosine_similarity_rounded [OF example_counts example_in_range]
    example_counts example_in_range example_norms
  by simp

end
